theory Spec2Isabelle
  imports Complex_Main "HOL-Library.Multiset"
begin

section \<open>Checkerboard swap chains of \<open>weighted_swap.cpp\<close>\<close>

text \<open>
  The file embeds the two exported functions of \<open>src/weighted_swap.cpp\<close>,
  \<open>simple_swap_n\<close> and \<open>swap_n\<close>.

  Conventions of the embedding:
  \<^item> The vertex ids in the vectors are integers (the interface passes integer sequences),
    of any size: a vector is an \<open>int list\<close>. The source reads every id into an \<open>int\<close>
    local and builds its hash sets from \<open>std::pair<int,int>\<close>; this conversion is
    \<open>to_int\<close> below, applied wherever the source applies it. Writing an \<open>int\<close> local back
    into a vector is exact.
  \<^item> The two vectors of an edge list are two lists; the edge in slot \<open>i\<close> is
    \<open>(e_from ! i, e_to ! i)\<close>. The vectors passed in are taken to be separate objects.
  \<^item> \<open>std::unordered_set\<close> of pairs is a HOL set of pairs (\<open>pair_equal\<close> is equality
    of both components, so the hash set is a set of pairs; its iteration order is
    never observed).
  \<^item> \<open>operator[]\<close> of an Rcpp vector is unchecked; a read outside the vector is
    undefined behaviour and is the result \<open>Inl OutOfBounds\<close> of the model.
  \<^item> The random number library (\<open>std::mt19937\<close>, \<open>std::uniform_int_distribution\<close>,
    \<open>std::uniform_real_distribution\<close>, \<open>std::random_device\<close>) is not part of the file.
    The generator is a parameter: a state type \<open>'g\<close> with the three operations the source
    uses. The value read from \<open>std::random_device\<close> is the argument \<open>rd\<close>.
  \<^item> The values of type \<open>double\<close> are modelled exactly (type \<open>double\<close> below), and so is
    their comparison. The multiplication and the division of doubles round, overflow and
    underflow; they are done by the hardware and are a parameter of the model (\<open>fpu\<close>), so
    that every statement about \<open>swap_n\<close> holds for the arithmetic of IEEE 754 as for any
    other.
\<close>

subsection \<open>Doubles\<close>

text \<open>
  A double is a finite value (the real number it denotes; \<open>Fin 0\<close> is \<open>+0\<close>), the
  negative zero, an infinity or a NaN.
\<close>

datatype double = Fin real | NegZero | PInf | NInf | NaN

definition fval :: "double \<Rightarrow> real" where
  "fval x = (case x of Fin a \<Rightarrow> a | _ \<Rightarrow> 0)"

text \<open>
  \<open>x < y\<close> on doubles: every comparison with NaN is false, the two zeros are equal.
  \<open>dle x y\<close> is \<open>x <= y\<close>.
\<close>

fun dlt :: "double \<Rightarrow> double \<Rightarrow> bool" where
  "dlt NaN y = False"
| "dlt x NaN = False"
| "dlt PInf y = False"
| "dlt x NInf = False"
| "dlt NInf y = True"
| "dlt x PInf = True"
| "dlt x y = (fval x < fval y)"

definition dle :: "double \<Rightarrow> double \<Rightarrow> bool" where
  "dle x y = (x \<noteq> NaN \<and> y \<noteq> NaN \<and> \<not> dlt y x)"

text \<open>
  The arithmetic of doubles the source uses: \<open>fmul x y\<close> is \<open>x * y\<close> and \<open>fdiv x y\<close> is
  \<open>x / y\<close>, as the floating-point unit computes them.
\<close>

record fpu =
  fmul :: "double \<Rightarrow> double \<Rightarrow> double"
  fdiv :: "double \<Rightarrow> double \<Rightarrow> double"

text \<open>
  An arithmetic used to run \<open>swap_n\<close> on concrete inputs. It has the special cases of
  IEEE 754 (NaN, infinities, signed zeros) and computes finite results exactly, without
  rounding: it gives the result of IEEE 754 wherever the exact product or quotient is a
  double, as with the weights 1, 1/2 and 4 of the runs below.
\<close>

definition dsign :: "double \<Rightarrow> bool" where
  "dsign x = (case x of Fin a \<Rightarrow> a < 0 | NegZero \<Rightarrow> True | NInf \<Rightarrow> True | _ \<Rightarrow> False)"

definition is_zero :: "double \<Rightarrow> bool" where
  "is_zero x \<longleftrightarrow> x = Fin 0 \<or> x = NegZero"

definition is_inf :: "double \<Rightarrow> bool" where
  "is_inf x \<longleftrightarrow> x = PInf \<or> x = NInf"

definition inf_of :: "bool \<Rightarrow> double" where
  "inf_of negative = (if negative then NInf else PInf)"

definition zero_of :: "bool \<Rightarrow> double" where
  "zero_of negative = (if negative then NegZero else Fin 0)"

definition exact_mul :: "double \<Rightarrow> double \<Rightarrow> double" where
  "exact_mul x y =
     (if x = NaN \<or> y = NaN \<or> (is_zero x \<and> is_inf y) \<or> (is_inf x \<and> is_zero y) then NaN
      else if is_inf x \<or> is_inf y then inf_of (dsign x \<noteq> dsign y)
      else if is_zero x \<or> is_zero y then zero_of (dsign x \<noteq> dsign y)
      else Fin (fval x * fval y))"

definition exact_div :: "double \<Rightarrow> double \<Rightarrow> double" where
  "exact_div x y =
     (if x = NaN \<or> y = NaN \<or> (is_zero x \<and> is_zero y) \<or> (is_inf x \<and> is_inf y) then NaN
      else if is_inf x \<or> is_zero y then inf_of (dsign x \<noteq> dsign y)
      else if is_zero x \<or> is_inf y then zero_of (dsign x \<noteq> dsign y)
      else Fin (fval x / fval y))"

definition exact_fpu :: fpu where
  "exact_fpu = \<lparr> fmul = exact_mul, fdiv = exact_div \<rparr>"

subsection \<open>The random number generator\<close>

text \<open>
  \<open>seed_gen seed\<close> is \<open>std::mt19937 gen(seed)\<close>; \<open>randint a b g\<close> is one draw of
  \<open>std::uniform_int_distribution<>(a, b)\<close> from the generator in state \<open>g\<close>, and
  \<open>randu g\<close> one draw of \<open>std::uniform_real_distribution<>(0.0, 1.0)\<close>; both return the
  value and the next state of the generator.
\<close>

record 'g rng =
  seed_gen :: "int \<Rightarrow> 'g"
  randint :: "int \<Rightarrow> int \<Rightarrow> 'g \<Rightarrow> int \<times> 'g"
  randu :: "'g \<Rightarrow> double \<times> 'g"

text \<open>
  What the C++ standard promises of the two distributions: an integer draw lies in
  \<open>[a, b]\<close> when \<open>a \<le> b\<close>, a real draw lies in \<open>[0, 1)\<close>.
\<close>

definition rng_ok :: "'g rng \<Rightarrow> bool" where
  "rng_ok r \<longleftrightarrow>
     (\<forall>a b g. a \<le> b \<longrightarrow> a \<le> fst (randint r a b g) \<and> fst (randint r a b g) \<le> b) \<and>
     (\<forall>g. \<exists>u. fst (randu r g) = Fin u \<and> 0 \<le> u \<and> u < 1)"

text \<open>
  A generator that replays a script: the integer draws from \<open>ds\<close>, shifted by the
  seed and clamped into the requested range, the real draws from \<open>us\<close> (replaced by 0
  when outside \<open>[0, 1)\<close>). It is used to run the functions on concrete inputs.
\<close>

definition scripted_rng :: "int list \<Rightarrow> real list \<Rightarrow> (int list \<times> real list) rng" where
  "scripted_rng ds us =
     \<lparr> seed_gen = (\<lambda>seed. (map (\<lambda>d. d + seed) ds, us)),
       randint = (\<lambda>a b g. case fst g of
                     [] \<Rightarrow> (a, g)
                   | x # xs \<Rightarrow> (max a (min b x), (xs, snd g))),
       randu = (\<lambda>g. case snd g of
                     [] \<Rightarrow> (Fin 0, g)
                   | y # ys \<Rightarrow> (Fin (if 0 \<le> y \<and> y < 1 then y else 0), (fst g, ys))) \<rparr>"

subsection \<open>State of a chain\<close>

datatype error = OutOfBounds

record 'g chain =
  e_from :: "int list"
  e_to :: "int list"
  edgeSet :: "(int \<times> int) set"
  gen :: "'g"

text \<open>The weighted sampler has, on top of that, the six diagnostic columns.\<close>

record 'g wchain = "'g chain" +
  same_edge :: "bool list"
  is_checkerboard :: "bool list"
  is_not_struct_zeros :: "bool list"
  can_swap :: "bool list"
  did_swap :: "bool list"
  swap_ps :: "double list"

text \<open>
  \<open>if (seed == -1) { std::random_device rd; seed = rd(); }  std::mt19937 gen(seed);\<close>
\<close>

definition make_gen :: "'g rng \<Rightarrow> int \<Rightarrow> nat \<Rightarrow> 'g" where
  "make_gen r seed rd = seed_gen r (if seed = -1 then int rd else seed)"

text \<open>
  The conversion of a vector element to \<open>int\<close>, as in \<open>int e_from_i = e_from[i]\<close> and in
  the conversion of \<open>std::pair<double,double>\<close> to \<open>std::pair<int,int>\<close> at every
  \<open>insert\<close>. An id in the range of a 32-bit \<open>int\<close> is kept. For an id outside that range
  C++ leaves the conversion undefined; the conversion instruction of x86-64 then gives
  \<open>INT_MIN\<close>, and so does the model.
\<close>

definition in_int :: "int \<Rightarrow> bool" where
  "in_int v \<longleftrightarrow> - 2147483648 \<le> v \<and> v \<le> 2147483647"

definition to_int :: "int \<Rightarrow> int" where
  "to_int v = (if in_int v then v else - 2147483648)"

text \<open>
  \<open>for (int i=0; i<m; i++) set.insert(std::make_pair(xs[i], ys[i]));\<close>
  The loop runs to \<open>m\<close>, the number of edges, for the edge set and for the zero set alike.
\<close>

function insert_pairs ::
  "int list \<Rightarrow> int list \<Rightarrow> nat \<Rightarrow> nat \<Rightarrow> (int \<times> int) set \<Rightarrow> error + (int \<times> int) set" where
  "insert_pairs xs ys m i S =
     (if i < m then
        (if i < length xs \<and> i < length ys
         then insert_pairs xs ys m (Suc i) (insert (to_int (xs ! i), to_int (ys ! i)) S)
         else Inl OutOfBounds)
      else Inr S)"
  by pat_completeness auto
termination
  by (relation "measure (\<lambda>(xs, ys, m, i, S). m - i)") auto

text \<open>Slot \<open>i\<close> can be read from both vectors of the edge list.\<close>

definition in_range :: "int \<Rightarrow> ('g, 'z) chain_scheme \<Rightarrow> bool" where
  "in_range i s \<longleftrightarrow> 0 \<le> i \<and> nat i < length (e_from s) \<and> nat i < length (e_to s)"

text \<open>
  The commit of a swap, the same statements in both functions, with the four \<open>int\<close>
  locals read from slots \<open>i\<close> and \<open>j\<close>: insert \<open>(a,d)\<close> and \<open>(c,b)\<close>, erase \<open>(a,b)\<close> and
  \<open>(c,d)\<close>, then write \<open>e_from[i] = e_from_j; e_from[j] = e_from_i\<close>.
\<close>

definition commit ::
  "int \<Rightarrow> int \<Rightarrow> ('g, 'z) chain_scheme \<Rightarrow> ('g, 'z) chain_scheme" where
  "commit i j s =
     (let e_from_i = to_int (e_from s ! nat i); e_to_i = to_int (e_to s ! nat i);
          e_from_j = to_int (e_from s ! nat j); e_to_j = to_int (e_to s ! nat j)
      in s\<lparr> edgeSet := insert (e_from_j, e_to_i) (insert (e_from_i, e_to_j) (edgeSet s))
                          - {(e_from_i, e_to_i)} - {(e_from_j, e_to_j)},
            e_from := (e_from s)[nat i := e_from_j, nat j := e_from_i] \<rparr>)"

subsection \<open>\<open>simple_swap_n\<close>\<close>

text \<open>One iteration of the loop of \<open>simple_swap_n\<close>.\<close>

definition simple_swap_step :: "'g rng \<Rightarrow> nat \<Rightarrow> double \<Rightarrow> 'g chain \<Rightarrow> error + 'g chain" where
  "simple_swap_step r m swap_p s =
     (let (i, g1) = randint r 0 (int m - 1) (gen s);
          (j, g2) = randint r 0 (int m - 1) g1;
          s1 = s\<lparr>gen := g2\<rparr>
      in if i = j then Inr s1
         else if \<not> (in_range i s1 \<and> in_range j s1) then Inl OutOfBounds
         else
           let e_from_i = to_int (e_from s1 ! nat i); e_to_i = to_int (e_to s1 ! nat i);
               e_from_j = to_int (e_from s1 ! nat j); e_to_j = to_int (e_to s1 ! nat j)
           in if (e_from_i, e_to_j) \<notin> edgeSet s1 \<and> (e_from_j, e_to_i) \<notin> edgeSet s1 then
                (let (u, g3) = randu r (gen s1);
                     s2 = s1\<lparr>gen := g3\<rparr>
                 in if dlt u swap_p then Inr (commit i j s2) else Inr s2)
              else Inr s1)"

text \<open>\<open>for (int k=0; k<n; k++) { ... }\<close>\<close>

function simple_swap_loop ::
  "'g rng \<Rightarrow> nat \<Rightarrow> double \<Rightarrow> nat \<Rightarrow> nat \<Rightarrow> 'g chain \<Rightarrow> error + 'g chain" where
  "simple_swap_loop r m swap_p n k s =
     (if k < n then
        (case simple_swap_step r m swap_p s of
           Inl e \<Rightarrow> Inl e
         | Inr s' \<Rightarrow> simple_swap_loop r m swap_p n (Suc k) s')
      else Inr s)"
  by pat_completeness auto
termination
  by (relation "measure (\<lambda>(r, m, swap_p, n, k, s). n - k)") auto

text \<open>
  The function up to the end of its loop: the state the loop ends in. \<open>n\<close> is the
  number of iterations (a count, not negative).
\<close>

definition simple_swap_run ::
  "'g rng \<Rightarrow> int list \<Rightarrow> int list \<Rightarrow> nat \<Rightarrow> double \<Rightarrow> int \<Rightarrow> nat \<Rightarrow> error + 'g chain" where
  "simple_swap_run r Re_from Re_to n swap_p seed rd =
     (let m = length Re_from
      in case insert_pairs Re_from Re_to m 0 {} of
           Inl e \<Rightarrow> Inl e
         | Inr es \<Rightarrow>
             simple_swap_loop r m swap_p n 0
               \<lparr> e_from = Re_from, e_to = Re_to, edgeSet = es, gen = make_gen r seed rd \<rparr>)"

text \<open>The returned list: \<open>edges["from"] = e_from; edges["to"] = e_to\<close>.\<close>

definition simple_swap_n ::
  "'g rng \<Rightarrow> int list \<Rightarrow> int list \<Rightarrow> nat \<Rightarrow> double \<Rightarrow> int \<Rightarrow> nat
     \<Rightarrow> error + (int list \<times> int list)" where
  "simple_swap_n r Re_from Re_to n swap_p seed rd =
     (case simple_swap_run r Re_from Re_to n swap_p seed rd of
        Inl e \<Rightarrow> Inl e
      | Inr s \<Rightarrow> Inr (e_from s, e_to s))"

subsection \<open>\<open>swap_n\<close>\<close>

text \<open>
  One iteration of the loop of \<open>swap_n\<close>, for row \<open>k\<close> of the diagnostics. \<open>fp\<close> is the
  arithmetic of doubles, \<open>w\<close> the lookup in the weight matrix (with the \<open>int\<close> locals as
  indices), \<open>zeroSet\<close> the set of structural zeros. The second test
  is the source's: its first lookup is in \<open>zeroSet\<close>, its second in \<open>edgeSet\<close>.
  (The source compares the iterator of the first lookup with \<open>edgeSet.end()\<close>; both
  end iterators are the same past-the-end value, so the test is membership in \<open>zeroSet\<close>.)
\<close>

definition swap_step ::
  "fpu \<Rightarrow> 'g rng \<Rightarrow> (int \<Rightarrow> int \<Rightarrow> double) \<Rightarrow> (int \<times> int) set \<Rightarrow> nat \<Rightarrow> nat \<Rightarrow> 'g wchain
     \<Rightarrow> error + 'g wchain" where
  "swap_step fp r w zeroSet m k s =
     (let (i, g1) = randint r 0 (int m - 1) (gen s);
          (j, g2) = randint r 0 (int m - 1) g1;
          s1 = s\<lparr>gen := g2\<rparr>
      in if i = j then Inr (s1\<lparr>same_edge := (same_edge s1)[k := True]\<rparr>)
         else if \<not> (in_range i s1 \<and> in_range j s1) then Inl OutOfBounds
         else
           let e_from_i = to_int (e_from s1 ! nat i); e_to_i = to_int (e_to s1 ! nat i);
               e_from_j = to_int (e_from s1 ! nat j); e_to_j = to_int (e_to s1 ! nat j)
           in if (e_from_i, e_to_j) \<in> edgeSet s1 \<or> (e_from_j, e_to_i) \<in> edgeSet s1 then
                Inr (s1\<lparr>is_checkerboard := (is_checkerboard s1)[k := False]\<rparr>)
              else if (e_from_i, e_to_j) \<in> zeroSet \<or> (e_from_j, e_to_i) \<in> edgeSet s1 then
                Inr (s1\<lparr>is_not_struct_zeros := (is_not_struct_zeros s1)[k := False]\<rparr>)
              else
                let s2 = s1\<lparr>can_swap := (can_swap s1)[k := True]\<rparr>;
                    w_pre = fmul fp (w e_from_i e_to_i) (w e_from_j e_to_j);
                    w_post = fmul fp (w e_from_i e_to_j) (w e_from_j e_to_i);
                    swap_p = fdiv fp w_post w_pre;
                    s3 = s2\<lparr>swap_ps := (swap_ps s2)[k := swap_p]\<rparr>;
                    (u, g3) = randu r (gen s3);
                    s4 = s3\<lparr>gen := g3\<rparr>
                in if dlt u swap_p
                   then Inr (commit i j (s4\<lparr>did_swap := (did_swap s4)[k := True]\<rparr>))
                   else Inr s4)"

function swap_loop ::
  "fpu \<Rightarrow> 'g rng \<Rightarrow> (int \<Rightarrow> int \<Rightarrow> double) \<Rightarrow> (int \<times> int) set \<Rightarrow> nat \<Rightarrow> nat \<Rightarrow> nat \<Rightarrow> 'g wchain
     \<Rightarrow> error + 'g wchain" where
  "swap_loop fp r w zeroSet m n k s =
     (if k < n then
        (case swap_step fp r w zeroSet m k s of
           Inl e \<Rightarrow> Inl e
         | Inr s' \<Rightarrow> swap_loop fp r w zeroSet m n (Suc k) s')
      else Inr s)"
  by pat_completeness auto
termination
  by (relation "measure (\<lambda>(fp, r, w, zeroSet, m, n, k, s). n - k)") auto

text \<open>
  Modelled from the spec: the constructor \<open>Rcpp::LogicalVector v(n)\<close> and
  \<open>Rcpp::NumericVector v(n)\<close> of the Rcpp library, which is not in the repository.
  The spec: "unset columns default to false / zero".
\<close>

definition LogicalVector :: "nat \<Rightarrow> bool list" where
  "LogicalVector n = replicate n False"

definition NumericVector :: "nat \<Rightarrow> double list" where
  "NumericVector n = replicate n (Fin 0)"

text \<open>The state \<open>swap_n\<close> enters its loop with, once both hash sets are built.\<close>

definition swap_init ::
  "'g rng \<Rightarrow> int list \<Rightarrow> int list \<Rightarrow> nat \<Rightarrow> (int \<times> int) set \<Rightarrow> int \<Rightarrow> nat \<Rightarrow> 'g wchain" where
  "swap_init r Re_from Re_to n es seed rd =
     \<lparr> e_from = Re_from, e_to = Re_to, edgeSet = es, gen = make_gen r seed rd,
       same_edge = LogicalVector n, is_checkerboard = LogicalVector n,
       is_not_struct_zeros = LogicalVector n, can_swap = LogicalVector n,
       did_swap = LogicalVector n, swap_ps = NumericVector n \<rparr>"

text \<open>
  The state of \<open>swap_n\<close> after the first \<open>k\<close> iterations of its loop (the step
  boundary \<open>k\<close>), and after all \<open>n\<close> of them. The returned R list holds the eight
  vectors \<open>e_from\<close>, \<open>e_to\<close> and the six columns of the final state.
\<close>

definition swap_run_to ::
  "nat \<Rightarrow> fpu \<Rightarrow> 'g rng \<Rightarrow> int list \<Rightarrow> int list \<Rightarrow> nat \<Rightarrow> (int \<Rightarrow> int \<Rightarrow> double)
     \<Rightarrow> int list \<Rightarrow> int list \<Rightarrow> int \<Rightarrow> nat \<Rightarrow> error + 'g wchain" where
  "swap_run_to k fp r Re_from Re_to n w Rz_from Rz_to seed rd =
     (let m = length Re_from
      in case insert_pairs Re_from Re_to m 0 {} of
           Inl e \<Rightarrow> Inl e
         | Inr es \<Rightarrow>
            (case insert_pairs Rz_from Rz_to m 0 {} of
               Inl e \<Rightarrow> Inl e
             | Inr zeroSet \<Rightarrow>
                 swap_loop fp r w zeroSet m k 0 (swap_init r Re_from Re_to n es seed rd)))"

definition swap_run ::
  "fpu \<Rightarrow> 'g rng \<Rightarrow> int list \<Rightarrow> int list \<Rightarrow> nat \<Rightarrow> (int \<Rightarrow> int \<Rightarrow> double) \<Rightarrow> int list \<Rightarrow> int list
     \<Rightarrow> int \<Rightarrow> nat \<Rightarrow> error + 'g wchain" where
  "swap_run fp r Re_from Re_to n w Rz_from Rz_to seed rd =
     swap_run_to n fp r Re_from Re_to n w Rz_from Rz_to seed rd"

record swap_result =
  r_from :: "int list"
  r_to :: "int list"
  r_same_edge :: "bool list"
  r_is_checkerboard :: "bool list"
  r_is_not_struct_zeros :: "bool list"
  r_can_swap :: "bool list"
  r_did_swap :: "bool list"
  r_swap_p :: "double list"

definition swap_n ::
  "fpu \<Rightarrow> 'g rng \<Rightarrow> int list \<Rightarrow> int list \<Rightarrow> nat \<Rightarrow> (int \<Rightarrow> int \<Rightarrow> double) \<Rightarrow> int list \<Rightarrow> int list
     \<Rightarrow> int \<Rightarrow> nat \<Rightarrow> error + swap_result" where
  "swap_n fp r Re_from Re_to n w Rz_from Rz_to seed rd =
     (case swap_run fp r Re_from Re_to n w Rz_from Rz_to seed rd of
        Inl e \<Rightarrow> Inl e
      | Inr s \<Rightarrow>
          Inr \<lparr> r_from = e_from s, r_to = e_to s, r_same_edge = same_edge s,
                r_is_checkerboard = is_checkerboard s,
                r_is_not_struct_zeros = is_not_struct_zeros s,
                r_can_swap = can_swap s, r_did_swap = did_swap s,
                r_swap_p = swap_ps s \<rparr>)"

subsection \<open>Notions used in the statements\<close>

text \<open>
  The edge list as a list of pairs, slot by slot: \<open>edges\<close> as the vectors store them,
  \<open>keys\<close> as the source reads them into its \<open>int\<close> locals.
\<close>

definition edges :: "('g, 'z) chain_scheme \<Rightarrow> (int \<times> int) list" where
  "edges s = zip (e_from s) (e_to s)"

definition keys :: "('g, 'z) chain_scheme \<Rightarrow> (int \<times> int) list" where
  "keys s = zip (map to_int (e_from s)) (map to_int (e_to s))"

text \<open>The \<open>int\<close> locals \<open>e_from_i\<close> and \<open>e_to_i\<close> of an iteration that has drawn slot \<open>i\<close>.\<close>

definition from_at :: "('g, 'z) chain_scheme \<Rightarrow> int \<Rightarrow> int" where
  "from_at s i = to_int (e_from s ! nat i)"

definition to_at :: "('g, 'z) chain_scheme \<Rightarrow> int \<Rightarrow> int" where
  "to_at s i = to_int (e_to s ! nat i)"

text \<open>Every id of a vector is in the range of a 32-bit \<open>int\<close>.\<close>

definition ids_ok :: "int list \<Rightarrow> bool" where
  "ids_ok xs = list_all in_int xs"

text \<open>
  Consistency of the hash set with the edge list as the source reads it: every slot of
  \<open>e_from\<close> has its \<open>e_to\<close>, no pair of keys occurs twice, and the hash set holds exactly
  the keys.
\<close>

definition consistent :: "('g, 'z) chain_scheme \<Rightarrow> bool" where
  "consistent s \<longleftrightarrow>
     length (e_from s) \<le> length (e_to s) \<and> distinct (keys s) \<and> edgeSet s = set (keys s)"

text \<open>The two slots an iteration draws in state \<open>s\<close>: \<open>i = randint(gen); j = randint(gen)\<close>.\<close>

definition proposal :: "'g rng \<Rightarrow> nat \<Rightarrow> ('g, 'z) chain_scheme \<Rightarrow> int \<times> int" where
  "proposal r m s =
     (let (i, g1) = randint r 0 (int m - 1) (gen s);
          (j, g2) = randint r 0 (int m - 1) g1
      in (i, j))"

text \<open>
  The acceptance ratio of the proposal \<open>(i, j)\<close> in state \<open>s\<close>, for \<open>(a,b)\<close> in slot \<open>i\<close> and
  \<open>(c,d)\<close> in slot \<open>j\<close>: \<open>W(a,d) * W(c,b) / (W(a,b) * W(c,d))\<close>, computed in doubles.
\<close>

definition swap_ratio ::
  "fpu \<Rightarrow> (int \<Rightarrow> int \<Rightarrow> double) \<Rightarrow> ('g, 'z) chain_scheme \<Rightarrow> int \<Rightarrow> int \<Rightarrow> double" where
  "swap_ratio fp w s i j =
     (let a = from_at s i; b = to_at s i; c = from_at s j; d = to_at s j
      in fdiv fp (fmul fp (w a d) (w c b)) (fmul fp (w a b) (w c d)))"

text \<open>Row \<open>k\<close> of the six diagnostic columns, and the columns all having \<open>n\<close> rows.\<close>

definition diag_row :: "'g wchain \<Rightarrow> nat \<Rightarrow> bool \<times> bool \<times> bool \<times> bool \<times> bool \<times> double" where
  "diag_row s k =
     (same_edge s ! k, is_checkerboard s ! k, is_not_struct_zeros s ! k,
      can_swap s ! k, did_swap s ! k, swap_ps s ! k)"

definition cols_len :: "'g wchain \<Rightarrow> nat \<Rightarrow> bool" where
  "cols_len s n \<longleftrightarrow>
     length (same_edge s) = n \<and> length (is_checkerboard s) = n \<and>
     length (is_not_struct_zeros s) = n \<and> length (can_swap s) = n \<and>
     length (did_swap s) = n \<and> length (swap_ps s) = n"

text \<open>No slot of the edge list holds a pair \<open>(v, v)\<close>.\<close>

definition no_self_loop :: "(int \<times> int) list \<Rightarrow> bool" where
  "no_self_loop es = list_all (\<lambda>(u, v). u \<noteq> v) es"

section \<open>Basic facts\<close>

declare insert_pairs.simps [simp del] simple_swap_loop.simps [simp del] swap_loop.simps [simp del]

lemma to_int_in_int [simp]: "in_int (to_int v)"
  by (simp add: to_int_def in_int_def)

lemma to_int_id: "in_int v \<Longrightarrow> to_int v = v"
  by (simp add: to_int_def)

lemma to_int_idem [simp]: "to_int (to_int v) = to_int v"
  by (simp add: to_int_id)

lemma ids_ok_map: "ids_ok xs \<Longrightarrow> map to_int xs = xs"
  by (induction xs) (simp_all add: ids_ok_def to_int_id)

lemma ids_ok_nth: "ids_ok xs \<Longrightarrow> k < length xs \<Longrightarrow> to_int (xs ! k) = xs ! k"
  by (simp add: ids_ok_def list_all_length to_int_id)

lemma ids_ok_mset: "mset xs = mset ys \<Longrightarrow> ids_ok xs = ids_ok ys"
  by (simp add: ids_ok_def list_all_iff) (metis mset_eq_setD)

lemma ids_ok_keys: "ids_ok (e_from s) \<Longrightarrow> ids_ok (e_to s) \<Longrightarrow> keys s = edges s"
  by (simp add: keys_def edges_def ids_ok_map)

lemma insert_pairs_result:
  "insert_pairs xs ys m i S = Inr S' \<Longrightarrow>
     S' = S \<union> {(to_int (xs ! k), to_int (ys ! k)) | k. i \<le> k \<and> k < m}
       \<and> (i < m \<longrightarrow> m \<le> length xs \<and> m \<le> length ys)"
proof (induction xs ys m i S rule: insert_pairs.induct)
  case (1 xs ys m i S)
  show ?case
  proof (cases "i < m")
    case False
    with "1.prems" show ?thesis by (auto simp: insert_pairs.simps)
  next
    case True
    with "1.prems" have ok: "i < length xs \<and> i < length ys"
      by (simp add: insert_pairs.simps split: if_splits)
    with True "1.prems"
    have rec: "insert_pairs xs ys m (Suc i) (insert (to_int (xs ! i), to_int (ys ! i)) S) = Inr S'"
      by (simp add: insert_pairs.simps)
    from "1.IH" [OF True ok rec]
    have IH: "S' = insert (to_int (xs ! i), to_int (ys ! i)) S
                \<union> {(to_int (xs ! k), to_int (ys ! k)) | k. Suc i \<le> k \<and> k < m}"
      and len: "Suc i < m \<longrightarrow> m \<le> length xs \<and> m \<le> length ys" by simp_all
    have "{(to_int (xs ! k), to_int (ys ! k)) | k. i \<le> k \<and> k < m}
            = insert (to_int (xs ! i), to_int (ys ! i))
                {(to_int (xs ! k), to_int (ys ! k)) | k. Suc i \<le> k \<and> k < m}"
      using True by (auto simp: Suc_le_eq le_less)
    with IH have "S' = S \<union> {(to_int (xs ! k), to_int (ys ! k)) | k. i \<le> k \<and> k < m}" by simp
    moreover have "m \<le> length xs \<and> m \<le> length ys"
      using len ok True by (cases "Suc i < m") auto
    ultimately show ?thesis by simp
  qed
qed

lemma insert_pairs_total:
  "m \<le> length xs \<Longrightarrow> m \<le> length ys \<Longrightarrow> \<exists>S'. insert_pairs xs ys m i S = Inr S'"
proof (induction xs ys m i S rule: insert_pairs.induct)
  case (1 xs ys m i S)
  then show ?case by (cases "i < m") (simp_all add: insert_pairs.simps [of xs ys m i S])
qed

lemma pairs_upto_zip:
  "length xs \<le> length ys \<Longrightarrow>
     {(to_int (xs ! k), to_int (ys ! k)) | k. k < length xs}
       = set (zip (map to_int xs) (map to_int ys))"
proof -
  assume len: "length xs \<le> length ys"
  have "set (zip (map to_int xs) (map to_int ys))
          = {(map to_int xs ! k, map to_int ys ! k) | k. k < length xs}"
    using len by (auto simp: set_zip)
  also have "\<dots> = {(to_int (xs ! k), to_int (ys ! k)) | k. k < length xs}"
  proof -
    have "(map to_int xs ! k, map to_int ys ! k) = (to_int (xs ! k), to_int (ys ! k))"
      if "k < length xs" for k using that len by simp
    then show ?thesis by metis
  qed
  finally show ?thesis by simp
qed

lemma commit_to [simp]: "e_to (commit i j s) = e_to s"
  by (simp add: commit_def Let_def)

lemma commit_length [simp]: "length (e_from (commit i j s)) = length (e_from s)"
  by (simp add: commit_def Let_def)

lemma commit_from:
  "e_from (commit i j s) = (e_from s)[nat i := from_at s j, nat j := from_at s i]"
  by (simp add: commit_def Let_def from_at_def)

lemma commit_edgeSet:
  "edgeSet (commit i j s) =
     insert (from_at s j, to_at s i) (insert (from_at s i, to_at s j) (edgeSet s))
       - {(from_at s i, to_at s i)} - {(from_at s j, to_at s j)}"
  by (simp add: commit_def Let_def from_at_def to_at_def)

lemma commit_mset:
  assumes "in_range i s" "in_range j s" "ids_ok (e_from s)"
  shows "mset (e_from (commit i j s)) = mset (e_from s)"
proof -
  from assms have "from_at s i = e_from s ! nat i" "from_at s j = e_from s ! nat j"
    by (simp_all add: from_at_def in_range_def ids_ok_nth)
  with assms(1,2) show ?thesis
    by (simp add: commit_from in_range_def mset_swap)
qed

lemma zip_update_left: "zip (xs[i := x]) ys = (zip xs ys)[i := (x, ys ! i)]"
  by (simp add: update_zip)

lemma keys_nth:
  "in_range i s \<Longrightarrow> nat i < length (keys s) \<and> keys s ! nat i = (from_at s i, to_at s i)"
  by (simp add: keys_def in_range_def from_at_def to_at_def)

lemma commit_keys:
  assumes "in_range i s" "in_range j s"
  shows "keys (commit i j s) =
           (keys s)[nat i := (from_at s j, to_at s i), nat j := (from_at s i, to_at s j)]"
proof -
  have "zip (map to_int ((e_from s)[nat i := to_int c, nat j := to_int a])) ys
          = (zip (map to_int (e_from s)) ys)[nat i := (to_int c, ys ! nat i),
                                             nat j := (to_int a, ys ! nat j)]"
    for a c ys
    by (simp add: zip_update_left map_update)
  from this [of "e_from s ! nat j" "e_from s ! nat i" "map to_int (e_to s)"] assms
  show ?thesis
    by (simp add: keys_def commit_def Let_def from_at_def to_at_def in_range_def)
qed

lemma commit_consistent:
  assumes c: "consistent s" and i: "in_range i s" and j: "in_range j s" and ij: "i \<noteq> j"
    and ad: "(from_at s i, to_at s j) \<notin> edgeSet s"
    and cb: "(from_at s j, to_at s i) \<notin> edgeSet s"
  shows "consistent (commit i j s)"
proof -
  let ?es = "keys s"
  let ?a = "from_at s i" and ?b = "to_at s i"
  let ?c = "from_at s j" and ?d = "to_at s j"
  have li: "nat i < length ?es" and lj: "nat j < length ?es"
    using keys_nth [OF i] keys_nth [OF j] by simp_all
  have ei: "?es ! nat i = (?a, ?b)" and ej: "?es ! nat j = (?c, ?d)"
    using keys_nth [OF i] keys_nth [OF j] by simp_all
  have nij: "nat i \<noteq> nat j" using i j ij by (auto simp: in_range_def)
  have d: "distinct ?es" and E: "edgeSet s = set ?es" using c by (simp_all add: consistent_def)
  have abE: "(?a, ?b) \<in> set ?es" using li ei by (metis nth_mem)
  have cdE: "(?c, ?d) \<in> set ?es" using lj ej by (metis nth_mem)
  have ad': "(?a, ?d) \<notin> set ?es" and cb': "(?c, ?b) \<notin> set ?es" using ad cb E by simp_all
  have ne: "(?c, ?b) \<noteq> (?a, ?d)" using abE ad' by auto
  let ?es1 = "?es[nat i := (?c, ?b)]"
  have d1: "distinct ?es1" using d cb' by (simp add: distinct_list_update)
  have s1: "set ?es1 = insert (?c, ?b) (set ?es - {(?a, ?b)})"
    using d li ei by (simp add: set_update_distinct)
  have e1j: "?es1 ! nat j = (?c, ?d)" using nij ej by simp
  have "(?a, ?d) \<notin> set ?es1" using s1 ad' ne by auto
  then have d2: "distinct (?es1[nat j := (?a, ?d)])"
    using d1 by (simp add: distinct_list_update)
  have s2: "set (?es1[nat j := (?a, ?d)]) = insert (?a, ?d) (set ?es1 - {(?c, ?d)})"
    using d1 lj e1j by (simp add: set_update_distinct)
  have es': "keys (commit i j s) = ?es1[nat j := (?a, ?d)]"
    using commit_keys [OF i j] by simp
  have "edgeSet (commit i j s) = insert (?c, ?b) (insert (?a, ?d) (set ?es)) - {(?a, ?b)} - {(?c, ?d)}"
    using E by (simp add: commit_edgeSet)
  also have "\<dots> = insert (?a, ?d) (insert (?c, ?b) (set ?es - {(?a, ?b)}) - {(?c, ?d)})"
    using ad' cb' abE cdE by auto
  finally have "edgeSet (commit i j s) = set (keys (commit i j s))"
    using s1 s2 es' by simp
  moreover have "distinct (keys (commit i j s))" using d2 es' by simp
  moreover have "length (e_from (commit i j s)) \<le> length (e_to (commit i j s))"
    using c by (simp add: consistent_def)
  ultimately show ?thesis by (simp add: consistent_def)
qed

lemma simple_swap_step_unfold:
  assumes "randint r 0 (int m - 1) (gen s) = (i, g1)"
    and "randint r 0 (int m - 1) g1 = (j, g2)"
    and "randu r g2 = (u, g3)"
  shows "simple_swap_step r m p s =
    (if i = j then Inr (s\<lparr>gen := g2\<rparr>)
     else if \<not> (in_range i s \<and> in_range j s) then Inl OutOfBounds
     else if (from_at s i, to_at s j) \<notin> edgeSet s \<and> (from_at s j, to_at s i) \<notin> edgeSet s
          then (if dlt u p then Inr (commit i j (s\<lparr>gen := g3\<rparr>)) else Inr (s\<lparr>gen := g3\<rparr>))
     else Inr (s\<lparr>gen := g2\<rparr>))"
  by (simp add: simple_swap_step_def Let_def in_range_def from_at_def to_at_def assms)

lemma swap_step_unfold:
  assumes "randint r 0 (int m - 1) (gen s) = (i, g1)"
    and "randint r 0 (int m - 1) g1 = (j, g2)"
    and "randu r g2 = (u, g3)"
  shows "swap_step fp r w Z m k s =
    (if i = j then Inr (s\<lparr>gen := g2, same_edge := (same_edge s)[k := True]\<rparr>)
     else if \<not> (in_range i s \<and> in_range j s) then Inl OutOfBounds
     else if (from_at s i, to_at s j) \<in> edgeSet s \<or> (from_at s j, to_at s i) \<in> edgeSet s
          then Inr (s\<lparr>gen := g2, is_checkerboard := (is_checkerboard s)[k := False]\<rparr>)
     else if (from_at s i, to_at s j) \<in> Z
          then Inr (s\<lparr>gen := g2, is_not_struct_zeros := (is_not_struct_zeros s)[k := False]\<rparr>)
     else if dlt u (swap_ratio fp w s i j)
          then Inr (commit i j (s\<lparr>can_swap := (can_swap s)[k := True],
                                  swap_ps := (swap_ps s)[k := swap_ratio fp w s i j],
                                  gen := g3, did_swap := (did_swap s)[k := True]\<rparr>))
     else Inr (s\<lparr>can_swap := (can_swap s)[k := True],
                 swap_ps := (swap_ps s)[k := swap_ratio fp w s i j], gen := g3\<rparr>))"
  by (simp add: swap_step_def Let_def in_range_def swap_ratio_def from_at_def to_at_def assms)

lemma commit_fields_upd [simp]:
  "e_from (commit i j (s\<lparr>gen := g\<rparr>)) = e_from (commit i j s)"
  "edgeSet (commit i j (s\<lparr>gen := g\<rparr>)) = edgeSet (commit i j s)"
  by (simp_all add: commit_def Let_def)

lemma commit_fields_wupd [simp]:
  "e_from (commit i j (s\<lparr>can_swap := cs, swap_ps := ps, gen := g, did_swap := ds\<rparr>))
     = e_from (commit i j s)"
  "edgeSet (commit i j (s\<lparr>can_swap := cs, swap_ps := ps, gen := g, did_swap := ds\<rparr>))
     = edgeSet (commit i j s)"
  by (simp_all add: commit_def Let_def)

lemma simple_swap_step_cases:
  assumes step: "simple_swap_step r m p s = Inr s'"
  obtains (keep) "e_from s' = e_from s" "e_to s' = e_to s" "edgeSet s' = edgeSet s"
  | (swap) i j where "i \<noteq> j" "in_range i s" "in_range j s"
      "(from_at s i, to_at s j) \<notin> edgeSet s"
      "(from_at s j, to_at s i) \<notin> edgeSet s"
      "e_from s' = e_from (commit i j s)" "e_to s' = e_to s"
      "edgeSet s' = edgeSet (commit i j s)"
proof -
  obtain i g1 where d1: "randint r 0 (int m - 1) (gen s) = (i, g1)" by (cases "randint r 0 (int m - 1) (gen s)")
  obtain j g2 where d2: "randint r 0 (int m - 1) g1 = (j, g2)" by (cases "randint r 0 (int m - 1) g1")
  obtain u g3 where d3: "randu r g2 = (u, g3)" by (cases "randu r g2")
  note eq = simple_swap_step_unfold [OF d1 d2 d3, where p = p]
  let ?cb = "(from_at s i, to_at s j) \<notin> edgeSet s
              \<and> (from_at s j, to_at s i) \<notin> edgeSet s"
  show thesis
  proof (cases "i \<noteq> j \<and> in_range i s \<and> in_range j s \<and> ?cb \<and> dlt u p")
    case True
    with step eq have "s' = commit i j (s\<lparr>gen := g3\<rparr>)" by simp
    then have "e_from s' = e_from (commit i j s)" "e_to s' = e_to s"
      "edgeSet s' = edgeSet (commit i j s)" by simp_all
    with True show thesis using swap [of i j] by blast
  next
    case False
    with step eq have "s' = s\<lparr>gen := g2\<rparr> \<or> s' = s\<lparr>gen := g3\<rparr>"
      by (auto split: if_splits)
    then have "e_from s' = e_from s" "e_to s' = e_to s" "edgeSet s' = edgeSet s" by auto
    then show thesis by (rule keep)
  qed
qed

lemma swap_step_cases:
  assumes step: "swap_step fp r w Z m k s = Inr s'"
  obtains (keep) "e_from s' = e_from s" "e_to s' = e_to s" "edgeSet s' = edgeSet s"
  | (swap) i j where "i \<noteq> j" "in_range i s" "in_range j s"
      "(from_at s i, to_at s j) \<notin> edgeSet s"
      "(from_at s j, to_at s i) \<notin> edgeSet s"
      "e_from s' = e_from (commit i j s)" "e_to s' = e_to s"
      "edgeSet s' = edgeSet (commit i j s)"
proof -
  obtain i g1 where d1: "randint r 0 (int m - 1) (gen s) = (i, g1)" by (cases "randint r 0 (int m - 1) (gen s)")
  obtain j g2 where d2: "randint r 0 (int m - 1) g1 = (j, g2)" by (cases "randint r 0 (int m - 1) g1")
  obtain u g3 where d3: "randu r g2 = (u, g3)" by (cases "randu r g2")
  note eq = swap_step_unfold [OF d1 d2 d3, where fp = fp and w = w and Z = Z and k = k]
  let ?ok = "i \<noteq> j \<and> in_range i s \<and> in_range j s
              \<and> (from_at s i, to_at s j) \<notin> edgeSet s
              \<and> (from_at s j, to_at s i) \<notin> edgeSet s
              \<and> (from_at s i, to_at s j) \<notin> Z"
  show thesis
  proof (cases "?ok \<and> dlt u (swap_ratio fp w s i j)")
    case True
    with step eq have "s' = commit i j (s\<lparr>can_swap := (can_swap s)[k := True],
                                  swap_ps := (swap_ps s)[k := swap_ratio fp w s i j],
                                  gen := g3, did_swap := (did_swap s)[k := True]\<rparr>)" by simp
    then have "e_from s' = e_from (commit i j s)" "e_to s' = e_to s"
      "edgeSet s' = edgeSet (commit i j s)" by simp_all
    with True show thesis using swap [of i j] by blast
  next
    case False
    with step eq have "e_from s' = e_from s \<and> e_to s' = e_to s \<and> edgeSet s' = edgeSet s"
      by (auto split: if_splits)
    then show thesis using keep by blast
  qed
qed

lemma simple_swap_loop_inv:
  assumes "simple_swap_loop r m p n k s = Inr t" and "P s"
    and "\<And>u u'. P u \<Longrightarrow> simple_swap_step r m p u = Inr u' \<Longrightarrow> P u'"
  shows "P t"
  using assms
proof (induction r m p n k s rule: simple_swap_loop.induct)
  case (1 r m p n k s)
  show ?case
  proof (cases "k < n")
    case False
    with "1.prems" show ?thesis by (simp add: simple_swap_loop.simps [of r m p n k s])
  next
    case True
    with "1.prems"(1) obtain s1 where s1: "simple_swap_step r m p s = Inr s1"
      and rest: "simple_swap_loop r m p n (Suc k) s1 = Inr t"
      by (auto simp: simple_swap_loop.simps [of r m p n k s] split: sum.splits)
    have "P s1" using "1.prems"(3) [of s s1] "1.prems"(2) s1 by simp
    then show ?thesis using "1.IH" [OF True s1 rest] "1.prems"(3) by blast
  qed
qed

lemma swap_loop_inv:
  assumes "swap_loop fp r w Z m n k s = Inr t" and "P s"
    and "\<And>k' u u'. k \<le> k' \<Longrightarrow> k' < n \<Longrightarrow> P u \<Longrightarrow> swap_step fp r w Z m k' u = Inr u' \<Longrightarrow> P u'"
  shows "P t"
  using assms
proof (induction fp r w Z m n k s rule: swap_loop.induct)
  case (1 fp r w Z m n k s)
  show ?case
  proof (cases "k < n")
    case False
    with "1.prems" show ?thesis by (simp add: swap_loop.simps [of fp r w Z m n k s])
  next
    case True
    with "1.prems"(1) obtain s1 where s1: "swap_step fp r w Z m k s = Inr s1"
      and rest: "swap_loop fp r w Z m n (Suc k) s1 = Inr t"
      by (auto simp: swap_loop.simps [of fp r w Z m n k s] split: sum.splits)
    have "P s1" using "1.prems"(3) [of k s s1] True "1.prems"(2) s1 by simp
    moreover have "P u'"
      if "Suc k \<le> k'" "k' < n" "P u" "swap_step fp r w Z m k' u = Inr u'" for k' u u'
      using "1.prems"(3) [of k' u u'] that by simp
    ultimately show ?thesis using "1.IH" [OF True s1 rest] by blast
  qed
qed

lemma consistent_fields:
  "e_from s' = e_from s \<Longrightarrow> e_to s' = e_to s \<Longrightarrow> edgeSet s' = edgeSet s
     \<Longrightarrow> consistent s' = consistent s"
  by (simp add: consistent_def keys_def)

lemma simple_swap_step_consistent:
  assumes "consistent s" and "simple_swap_step r m p s = Inr s'"
  shows "consistent s'"
  using assms(2)
proof (cases rule: simple_swap_step_cases)
  case keep
  then show ?thesis using assms(1) consistent_fields [of s' s] by simp
next
  case (swap i j)
  then have "consistent (commit i j s)" using assms(1) commit_consistent by blast
  moreover have "consistent s' = consistent (commit i j s)"
    using swap by (intro consistent_fields) simp_all
  ultimately show ?thesis by simp
qed

lemma swap_step_consistent:
  assumes "consistent s" and "swap_step fp r w Z m k s = Inr s'"
  shows "consistent s'"
  using assms(2)
proof (cases rule: swap_step_cases)
  case keep
  then show ?thesis using assms(1) consistent_fields [of s' s] by simp
next
  case (swap i j)
  then have "consistent (commit i j s)" using assms(1) commit_consistent by blast
  moreover have "consistent s' = consistent (commit i j s)"
    using swap by (intro consistent_fields) simp_all
  ultimately show ?thesis by simp
qed

lemma simple_swap_step_frame:
  assumes "simple_swap_step r m p s = Inr s'"
  shows "length (e_from s') = length (e_from s) \<and> e_to s' = e_to s"
  using assms by (cases rule: simple_swap_step_cases) simp_all

lemma swap_step_frame:
  assumes "swap_step fp r w Z m k s = Inr s'"
  shows "length (e_from s') = length (e_from s) \<and> e_to s' = e_to s"
  using assms by (cases rule: swap_step_cases) simp_all

lemma simple_swap_step_mset:
  assumes "simple_swap_step r m p s = Inr s'" and "ids_ok (e_from s)"
  shows "mset (e_from s') = mset (e_from s) \<and> e_to s' = e_to s"
  using assms by (cases rule: simple_swap_step_cases) (simp_all add: commit_mset)

lemma swap_step_mset:
  assumes "swap_step fp r w Z m k s = Inr s'" and "ids_ok (e_from s)"
  shows "mset (e_from s') = mset (e_from s) \<and> e_to s' = e_to s"
  using assms by (cases rule: swap_step_cases) (simp_all add: commit_mset)

lemma insert_pairs_keys:
  assumes "insert_pairs xs ys (length xs) 0 {} = Inr es"
  shows "length xs \<le> length ys \<and> es = set (zip (map to_int xs) (map to_int ys))"
proof -
  from insert_pairs_result [OF assms]
  have es: "es = {(to_int (xs ! k), to_int (ys ! k)) | k. 0 \<le> k \<and> k < length xs}"
    and len: "0 < length xs \<longrightarrow> length xs \<le> length ys" by simp_all
  from len have le: "length xs \<le> length ys" by (cases xs) simp_all
  with es pairs_upto_zip [OF le] show ?thesis by simp
qed

lemma simple_swap_run_consistent:
  assumes "distinct (zip (map to_int Re_from) (map to_int Re_to))"
    and "simple_swap_run r Re_from Re_to n swap_p seed rd = Inr s"
  shows "consistent s"
proof -
  from assms(2) obtain es where es: "insert_pairs Re_from Re_to (length Re_from) 0 {} = Inr es"
    and loop: "simple_swap_loop r (length Re_from) swap_p n 0
        \<lparr> e_from = Re_from, e_to = Re_to, edgeSet = es, gen = make_gen r seed rd \<rparr> = Inr s"
    by (auto simp: simple_swap_run_def Let_def split: sum.splits)
  have "consistent \<lparr> e_from = Re_from, e_to = Re_to, edgeSet = es, gen = make_gen r seed rd \<rparr>"
    using insert_pairs_keys [OF es] assms(1) by (simp add: consistent_def keys_def)
  with loop show ?thesis
    by (rule simple_swap_loop_inv) (rule simple_swap_step_consistent)
qed

lemma swap_run_to_consistent:
  assumes "distinct (zip (map to_int Re_from) (map to_int Re_to))"
    and "swap_run_to k fp r Re_from Re_to n w Rz_from Rz_to seed rd = Inr s"
  shows "consistent s"
proof -
  from assms(2) obtain es Z where es: "insert_pairs Re_from Re_to (length Re_from) 0 {} = Inr es"
    and loop: "swap_loop fp r w Z (length Re_from) k 0 (swap_init r Re_from Re_to n es seed rd) = Inr s"
    by (auto simp: swap_run_to_def Let_def split: sum.splits)
  have "consistent (swap_init r Re_from Re_to n es seed rd)"
    using insert_pairs_keys [OF es] assms(1) by (simp add: consistent_def keys_def swap_init_def)
  with loop show ?thesis
    by (rule swap_loop_inv) (rule swap_step_consistent)
qed

lemma simple_swap_run_mset:
  assumes "simple_swap_run r Re_from Re_to n swap_p seed rd = Inr s" and ok: "ids_ok Re_from"
  shows "mset (e_from s) = mset Re_from \<and> e_to s = Re_to"
proof -
  from assms obtain es where
    loop: "simple_swap_loop r (length Re_from) swap_p n 0
        \<lparr> e_from = Re_from, e_to = Re_to, edgeSet = es, gen = make_gen r seed rd \<rparr> = Inr s"
    by (auto simp: simple_swap_run_def Let_def split: sum.splits)
  show ?thesis
  proof (rule simple_swap_loop_inv [OF loop])
    show "mset (e_from \<lparr> e_from = Re_from, e_to = Re_to, edgeSet = es,
                         gen = make_gen r seed rd \<rparr>) = mset Re_from
        \<and> e_to \<lparr> e_from = Re_from, e_to = Re_to, edgeSet = es, gen = make_gen r seed rd \<rparr>
            = Re_to" by simp
  next
    fix u u' :: "'a chain"
    assume P: "mset (e_from u) = mset Re_from \<and> e_to u = Re_to"
      and step: "simple_swap_step r (length Re_from) swap_p u = Inr u'"
    from P ok have "ids_ok (e_from u)" using ids_ok_mset [of "e_from u" Re_from] by simp
    from simple_swap_step_mset [OF step this] P
    show "mset (e_from u') = mset Re_from \<and> e_to u' = Re_to" by simp
  qed
qed

lemma swap_run_to_mset:
  assumes "swap_run_to k fp r Re_from Re_to n w Rz_from Rz_to seed rd = Inr s"
    and ok: "ids_ok Re_from"
  shows "mset (e_from s) = mset Re_from \<and> e_to s = Re_to"
proof -
  from assms obtain es Z where
    loop: "swap_loop fp r w Z (length Re_from) k 0 (swap_init r Re_from Re_to n es seed rd) = Inr s"
    by (auto simp: swap_run_to_def Let_def split: sum.splits)
  show ?thesis
  proof (rule swap_loop_inv [OF loop])
    show "mset (e_from (swap_init r Re_from Re_to n es seed rd)) = mset Re_from
        \<and> e_to (swap_init r Re_from Re_to n es seed rd) = Re_to"
      by (simp add: swap_init_def)
  next
    fix k' and u u' :: "'a wchain"
    assume P: "mset (e_from u) = mset Re_from \<and> e_to u = Re_to"
      and step: "swap_step fp r w Z (length Re_from) k' u = Inr u'"
    from P ok have "ids_ok (e_from u)" using ids_ok_mset [of "e_from u" Re_from] by simp
    from swap_step_mset [OF step this] P
    show "mset (e_from u') = mset Re_from \<and> e_to u' = Re_to" by simp
  qed
qed

lemma simple_swap_run_ids:
  assumes "simple_swap_run r Re_from Re_to n swap_p seed rd = Inr s"
    and "ids_ok Re_from" "ids_ok Re_to"
  shows "keys s = edges s"
proof -
  from simple_swap_run_mset [OF assms(1,2)]
  have m: "mset (e_from s) = mset Re_from" "e_to s = Re_to" by simp_all
  have "ids_ok (e_from s)" using ids_ok_mset [OF m(1)] assms(2) by simp
  moreover have "ids_ok (e_to s)" using m(2) assms(3) by simp
  ultimately show ?thesis by (rule ids_ok_keys)
qed

lemma swap_run_to_ids:
  assumes "swap_run_to k fp r Re_from Re_to n w Rz_from Rz_to seed rd = Inr s"
    and "ids_ok Re_from" "ids_ok Re_to"
  shows "keys s = edges s"
proof -
  from swap_run_to_mset [OF assms(1,2)]
  have m: "mset (e_from s) = mset Re_from" "e_to s = Re_to" by simp_all
  have "ids_ok (e_from s)" using ids_ok_mset [OF m(1)] assms(2) by simp
  moreover have "ids_ok (e_to s)" using m(2) assms(3) by simp
  ultimately show ?thesis by (rule ids_ok_keys)
qed

lemma scripted_rng_ok: "rng_ok (scripted_rng ds us)"
  by (auto simp: rng_ok_def scripted_rng_def split: list.splits)

lemmas run_simps =
  simple_swap_n_def simple_swap_run_def simple_swap_step_def simple_swap_loop.simps
  swap_n_def swap_run_def swap_run_to_def swap_init_def swap_step_def swap_loop.simps
  insert_pairs.simps commit_def in_range_def make_gen_def scripted_rng_def
  LogicalVector_def NumericVector_def Let_def insert_Diff_if to_int_def in_int_def
  exact_fpu_def exact_mul_def exact_div_def is_zero_def is_inf_def inf_of_def zero_of_def
  dsign_def fval_def

lemma edges_card:
  assumes "consistent s"
  shows "card (edgeSet s) = length (e_from s)"
proof -
  from assms have "card (edgeSet s) = length (keys s)"
    by (simp add: consistent_def distinct_card)
  also have "\<dots> = length (e_from s)" using assms by (simp add: consistent_def keys_def)
  finally show ?thesis .
qed

lemma no_self_loop_disjoint:
  assumes "set xs \<inter> set ys = {}"
  shows "no_self_loop (zip xs ys)"
proof -
  have "u \<noteq> v" if "(u, v) \<in> set (zip xs ys)" for u v
    using that assms by (metis disjoint_iff set_zip_leftD set_zip_rightD)
  then show ?thesis by (auto simp: no_self_loop_def list_all_iff)
qed

lemma commit_columns [simp]:
  "same_edge (commit i j s) = same_edge s"
  "is_checkerboard (commit i j s) = is_checkerboard s"
  "is_not_struct_zeros (commit i j s) = is_not_struct_zeros s"
  "can_swap (commit i j s) = can_swap s"
  "did_swap (commit i j s) = did_swap s"
  "swap_ps (commit i j s) = swap_ps s"
  by (simp_all add: commit_def Let_def)

lemma proposal_draws:
  assumes "randint r 0 (int m - 1) (gen s) = (i, g1)"
    and "randint r 0 (int m - 1) g1 = (j, g2)"
  shows "proposal r m s = (i, j)"
  by (simp add: proposal_def assms)

lemma swap_step_other_rows:
  assumes step: "swap_step fp r w Z m k' s = Inr s'" and len: "cols_len s n"
  shows "cols_len s' n \<and> (k \<noteq> k' \<longrightarrow> diag_row s' k = diag_row s k)"
proof -
  obtain i g1 where d1: "randint r 0 (int m - 1) (gen s) = (i, g1)" by (cases "randint r 0 (int m - 1) (gen s)")
  obtain j g2 where d2: "randint r 0 (int m - 1) g1 = (j, g2)" by (cases "randint r 0 (int m - 1) g1")
  obtain u g3 where d3: "randu r g2 = (u, g3)" by (cases "randu r g2")
  note eq = swap_step_unfold [OF d1 d2 d3, where fp = fp and w = w and Z = Z and k = k']
  from step len show ?thesis
    unfolding eq by (auto simp: cols_len_def diag_row_def split: if_splits)
qed

lemma dlt_below_one:
  assumes "0 \<le> u" "u < 1" "dle (Fin 1) x"
  shows "dlt (Fin u) x"
  using assms by (cases x) (auto simp: dle_def fval_def)

lemma swap_step_own_row:
  assumes step: "swap_step fp r w Z m k s = Inr s'" and len: "cols_len s n" and k: "k < n"
    and fresh: "\<not> can_swap s ! k" and can: "can_swap s' ! k" and ok: "rng_ok r"
    and pij: "proposal r m s = (i, j)"
  shows "swap_ps s' ! k = swap_ratio fp w s i j \<and> (dle (Fin 1) (swap_ps s' ! k) \<longrightarrow> did_swap s' ! k)"
proof -
  obtain i' g1 where d1: "randint r 0 (int m - 1) (gen s) = (i', g1)" by (cases "randint r 0 (int m - 1) (gen s)")
  obtain j' g2 where d2: "randint r 0 (int m - 1) g1 = (j', g2)" by (cases "randint r 0 (int m - 1) g1")
  obtain u g3 where d3: "randu r g2 = (u, g3)" by (cases "randu r g2")
  from proposal_draws [OF d1 d2] pij have ij: "i' = i" "j' = j" by simp_all
  note eq = swap_step_unfold [OF d1 d2 d3, where fp = fp and w = w and Z = Z and k = k, unfolded ij]
  from ok obtain v where v: "fst (randu r g2) = Fin v" "0 \<le> v" "v < 1"
    unfolding rng_ok_def by blast
  with d3 have u: "u = Fin v" by simp
  have acc: "dlt u (swap_ratio fp w s i j)" if "dle (Fin 1) (swap_ratio fp w s i j)"
    using dlt_below_one [OF v(2,3) that] u by simp
  from step len k fresh can acc show ?thesis
    unfolding eq by (auto simp: cols_len_def split: if_splits)
qed

lemma swap_loop_split:
  assumes "k \<le> k'" "k' \<le> n"
  shows "swap_loop fp r w Z m n k s =
           (case swap_loop fp r w Z m k' k s of Inl e \<Rightarrow> Inl e | Inr s' \<Rightarrow> swap_loop fp r w Z m n k' s')"
  using assms
proof (induction fp r w Z m k' k s rule: swap_loop.induct)
  case (1 fp r w Z m k' k s)
  show ?case
  proof (cases "k < k'")
    case False
    with "1.prems" have "k = k'" by simp
    then show ?thesis by (simp add: swap_loop.simps [of fp r w Z m k' k' s])
  next
    case True
    with "1.prems" have kn: "k < n" by simp
    show ?thesis
    proof (cases "swap_step fp r w Z m k s")
      case (Inl e)
      with True kn show ?thesis
        by (simp add: swap_loop.simps [of fp r w Z m k' k s] swap_loop.simps [of fp r w Z m n k s])
    next
      case (Inr s1)
      from "1.IH" [OF True Inr] True "1.prems"
      have "swap_loop fp r w Z m n (Suc k) s1 =
           (case swap_loop fp r w Z m k' (Suc k) s1 of Inl e \<Rightarrow> Inl e
            | Inr s' \<Rightarrow> swap_loop fp r w Z m n k' s')" by simp
      with True kn Inr show ?thesis
        by (simp add: swap_loop.simps [of fp r w Z m k' k s] swap_loop.simps [of fp r w Z m n k s])
    qed
  qed
qed

lemma swap_loop_rows:
  assumes loop: "swap_loop fp r w Z m n k0 s = Inr t" and len: "cols_len s n'"
    and k: "k < k0 \<or> n \<le> k"
  shows "cols_len t n' \<and> diag_row t k = diag_row s k"
proof (rule swap_loop_inv [OF loop, where P = "\<lambda>u. cols_len u n' \<and> diag_row u k = diag_row s k"])
  show "cols_len s n' \<and> diag_row s k = diag_row s k" using len by simp
next
  fix k' u u'
  assume "k0 \<le> k'" "k' < n" and P: "cols_len u n' \<and> diag_row u k = diag_row s k"
    and step: "swap_step fp r w Z m k' u = Inr u'"
  then have "k \<noteq> k'" using k by auto
  with swap_step_other_rows [OF step, of n' k] P
  show "cols_len u' n' \<and> diag_row u' k = diag_row s k" by simp
qed

lemma swap_init_cols: "cols_len (swap_init r Re_from Re_to n es seed rd) n"
  by (simp add: cols_len_def swap_init_def LogicalVector_def NumericVector_def)

lemma swap_init_row:
  "k < n \<Longrightarrow> diag_row (swap_init r Re_from Re_to n es seed rd) k
      = (False, False, False, False, False, Fin 0)"
  by (simp add: diag_row_def swap_init_def LogicalVector_def NumericVector_def)

lemma swap_run_loop:
  assumes "swap_run_to k fp r Re_from Re_to n w Rz_from Rz_to seed rd = Inr s"
  obtains es Z where "insert_pairs Re_from Re_to (length Re_from) 0 {} = Inr es"
    and "insert_pairs Rz_from Rz_to (length Re_from) 0 {} = Inr Z"
    and "swap_loop fp r w Z (length Re_from) k 0 (swap_init r Re_from Re_to n es seed rd) = Inr s"
  using assms by (auto simp: swap_run_to_def Let_def split: sum.splits)

lemma nth_update_any: "xs[k := v] ! l = (if k = l \<and> k < length xs then v else xs ! l)"
  by (cases "k < length xs") (auto simp: nth_list_update list_update_beyond)

lemma randint_in_range:
  assumes "rng_ok r" "0 < m" "randint r 0 (int m - 1) g = (i, g')"
    and "length (e_from s) = m" "m \<le> length (e_to s)"
  shows "in_range i s"
proof -
  from assms(1,2) have "0 \<le> fst (randint r 0 (int m - 1) g) \<and> fst (randint r 0 (int m - 1) g) \<le> int m - 1"
    unfolding rng_ok_def by (metis of_nat_0_less_iff zle_diff1_eq)
  with assms(3-5) show ?thesis by (auto simp: in_range_def nat_less_iff)
qed

lemma simple_swap_step_total:
  assumes "rng_ok r" "0 < m" "length (e_from s) = m" "m \<le> length (e_to s)"
  shows "\<exists>s'. simple_swap_step r m p s = Inr s'"
proof -
  obtain i g1 where d1: "randint r 0 (int m - 1) (gen s) = (i, g1)" by (cases "randint r 0 (int m - 1) (gen s)")
  obtain j g2 where d2: "randint r 0 (int m - 1) g1 = (j, g2)" by (cases "randint r 0 (int m - 1) g1")
  obtain u g3 where d3: "randu r g2 = (u, g3)" by (cases "randu r g2")
  have "in_range i s" "in_range j s"
    using randint_in_range [OF assms(1,2) d1 assms(3,4)] randint_in_range [OF assms(1,2) d2 assms(3,4)]
    by simp_all
  then show ?thesis
    by (simp add: simple_swap_step_unfold [OF d1 d2 d3])
qed

lemma swap_step_total:
  assumes "rng_ok r" "0 < m" "length (e_from s) = m" "m \<le> length (e_to s)"
  shows "\<exists>s'. swap_step fp r w Z m k s = Inr s'"
proof -
  obtain i g1 where d1: "randint r 0 (int m - 1) (gen s) = (i, g1)" by (cases "randint r 0 (int m - 1) (gen s)")
  obtain j g2 where d2: "randint r 0 (int m - 1) g1 = (j, g2)" by (cases "randint r 0 (int m - 1) g1")
  obtain u g3 where d3: "randu r g2 = (u, g3)" by (cases "randu r g2")
  have "in_range i s" "in_range j s"
    using randint_in_range [OF assms(1,2) d1 assms(3,4)] randint_in_range [OF assms(1,2) d2 assms(3,4)]
    by simp_all
  then show ?thesis
    by (simp add: swap_step_unfold [OF d1 d2 d3])
qed

lemma simple_swap_loop_total:
  assumes "rng_ok r" "0 < m" "length (e_from s) = m" "m \<le> length (e_to s)"
  shows "\<exists>t. simple_swap_loop r m p n k s = Inr t"
  using assms
proof (induction r m p n k s rule: simple_swap_loop.induct)
  case (1 r m p n k s)
  show ?case
  proof (cases "k < n")
    case False
    then show ?thesis by (simp add: simple_swap_loop.simps [of r m p n k s])
  next
    case True
    from simple_swap_step_total [OF "1.prems"] obtain s1
      where s1: "simple_swap_step r m p s = Inr s1" by blast
    from simple_swap_step_frame [OF s1] "1.prems"(3,4)
    have "length (e_from s1) = m" "m \<le> length (e_to s1)" by simp_all
    from "1.IH" [OF True s1 "1.prems"(1,2) this] True s1 show ?thesis
      by (simp add: simple_swap_loop.simps [of r m p n k s])
  qed
qed

lemma swap_loop_total:
  assumes "rng_ok r" "0 < m" "length (e_from s) = m" "m \<le> length (e_to s)"
  shows "\<exists>t. swap_loop fp r w Z m n k s = Inr t"
  using assms
proof (induction fp r w Z m n k s rule: swap_loop.induct)
  case (1 fp r w Z m n k s)
  show ?case
  proof (cases "k < n")
    case False
    then show ?thesis by (simp add: swap_loop.simps [of fp r w Z m n k s])
  next
    case True
    from swap_step_total [OF "1.prems"] obtain s1
      where s1: "swap_step fp r w Z m k s = Inr s1" by blast
    from swap_step_frame [OF s1] "1.prems"(3,4)
    have "length (e_from s1) = m" "m \<le> length (e_to s1)" by simp_all
    from "1.IH" [OF True s1 "1.prems"(1,2) this] True s1 show ?thesis
      by (simp add: swap_loop.simps [of fp r w Z m n k s])
  qed
qed

text \<open>
  Totality. For a generator that keeps the library's promises, a non-empty edge list and
  vectors that are long enough, both functions return a result.
\<close>

lemma simple_swap_n_total:
  assumes "rng_ok r" "Re_from \<noteq> []" "length Re_from \<le> length Re_to"
  shows "\<exists>res. simple_swap_n r Re_from Re_to n swap_p seed rd = Inr res"
proof -
  obtain es where es: "insert_pairs Re_from Re_to (length Re_from) 0 {} = Inr es"
    using insert_pairs_total [of "length Re_from" Re_from Re_to 0 "{}"] assms(3) by auto
  from simple_swap_loop_total [OF assms(1), of "length Re_from"
      "\<lparr> e_from = Re_from, e_to = Re_to, edgeSet = es, gen = make_gen r seed rd \<rparr>" swap_p n 0]
    assms(2,3)
  obtain t where "simple_swap_loop r (length Re_from) swap_p n 0
      \<lparr> e_from = Re_from, e_to = Re_to, edgeSet = es, gen = make_gen r seed rd \<rparr> = Inr t"
    by auto
  with es show ?thesis by (simp add: simple_swap_n_def simple_swap_run_def)
qed

lemma swap_run_to_total:
  assumes "rng_ok r" "Re_from \<noteq> []" "length Re_from \<le> length Re_to"
    and "length Re_from \<le> length Rz_from" "length Re_from \<le> length Rz_to"
  shows "\<exists>t. swap_run_to k fp r Re_from Re_to n w Rz_from Rz_to seed rd = Inr t"
proof -
  obtain es where es: "insert_pairs Re_from Re_to (length Re_from) 0 {} = Inr es"
    using insert_pairs_total [of "length Re_from" Re_from Re_to 0 "{}"] assms(3) by auto
  obtain Z where Z: "insert_pairs Rz_from Rz_to (length Re_from) 0 {} = Inr Z"
    using insert_pairs_total [of "length Re_from" Rz_from Rz_to 0 "{}"] assms(4,5) by auto
  from swap_loop_total [OF assms(1), of "length Re_from"
      "swap_init r Re_from Re_to n es seed rd" fp w Z k 0] assms(2,3)
  obtain t where "swap_loop fp r w Z (length Re_from) k 0 (swap_init r Re_from Re_to n es seed rd)
      = Inr t"
    by (auto simp: swap_init_def)
  with es Z show ?thesis by (simp add: swap_run_to_def)
qed

lemma swap_n_total:
  assumes "rng_ok r" "Re_from \<noteq> []" "length Re_from \<le> length Re_to"
    and "length Re_from \<le> length Rz_from" "length Re_from \<le> length Rz_to"
  shows "\<exists>res. swap_n fp r Re_from Re_to n w Rz_from Rz_to seed rd = Inr res"
  using swap_run_to_total [OF assms, where k = n and n = n and fp = fp and w = w
      and seed = seed and rd = rd]
  by (auto simp: swap_n_def swap_run_def)

text \<open>
  The boundary states are the states a longer run goes through: a run of \<open>n\<close> iterations
  is the run of its first \<open>k\<close> iterations followed by the iterations \<open>k\<close> to \<open>n - 1\<close>.
\<close>

lemma swap_run_boundary:
  assumes "k \<le> n" and "swap_run fp r Re_from Re_to n w Rz_from Rz_to seed rd = Inr t"
  obtains s Z where "swap_run_to k fp r Re_from Re_to n w Rz_from Rz_to seed rd = Inr s"
    and "insert_pairs Rz_from Rz_to (length Re_from) 0 {} = Inr Z"
    and "swap_loop fp r w Z (length Re_from) n k s = Inr t"
proof -
  let ?m = "length Re_from"
  from assms(2) obtain es Z where es: "insert_pairs Re_from Re_to ?m 0 {} = Inr es"
    and Z: "insert_pairs Rz_from Rz_to ?m 0 {} = Inr Z"
    and loop: "swap_loop fp r w Z ?m n 0 (swap_init r Re_from Re_to n es seed rd) = Inr t"
    unfolding swap_run_def by (rule swap_run_loop)
  from swap_loop_split [of 0 k n fp r w Z ?m "swap_init r Re_from Re_to n es seed rd"] assms(1) loop
  obtain s where pre: "swap_loop fp r w Z ?m k 0 (swap_init r Re_from Re_to n es seed rd) = Inr s"
    and post: "swap_loop fp r w Z ?m n k s = Inr t"
    by (auto split: sum.splits)
  from es Z pre have rt: "swap_run_to k fp r Re_from Re_to n w Rz_from Rz_to seed rd = Inr s"
    by (simp add: swap_run_to_def)
  show thesis by (rule that [OF rt Z post])
qed

text \<open>
  The two flag columns of \<open>swap_n\<close> never change: every entry of \<open>is_checkerboard\<close> and of
  \<open>is_not_struct_zeros\<close> is false at the end of every run. The columns have \<open>n\<close> rows, and
  \<open>did_swap\<close> is set only in rows where \<open>can_swap\<close> is.
\<close>

lemma swap_step_flags:
  assumes step: "swap_step fp r w Z m k s = Inr s'"
    and "is_checkerboard s = replicate n False" "is_not_struct_zeros s = replicate n False"
  shows "is_checkerboard s' = replicate n False \<and> is_not_struct_zeros s' = replicate n False"
proof -
  obtain i g1 where d1: "randint r 0 (int m - 1) (gen s) = (i, g1)" by (cases "randint r 0 (int m - 1) (gen s)")
  obtain j g2 where d2: "randint r 0 (int m - 1) g1 = (j, g2)" by (cases "randint r 0 (int m - 1) g1")
  obtain u g3 where d3: "randu r g2 = (u, g3)" by (cases "randu r g2")
  have upd: "(replicate n False)[k := False] = replicate n False"
    by (simp add: list_eq_iff_nth_eq nth_update_any)
  from assms show ?thesis
    unfolding swap_step_unfold [OF d1 d2 d3] by (auto simp: upd split: if_splits)
qed

lemma swap_run_flags:
  assumes "swap_run fp r Re_from Re_to n w Rz_from Rz_to seed rd = Inr t"
  shows "is_checkerboard t = replicate n False \<and> is_not_struct_zeros t = replicate n False"
proof -
  from assms obtain es Z where
    loop: "swap_loop fp r w Z (length Re_from) n 0 (swap_init r Re_from Re_to n es seed rd) = Inr t"
    unfolding swap_run_def by (rule swap_run_loop)
  show ?thesis
    by (rule swap_loop_inv [OF loop])
      (simp_all add: swap_init_def LogicalVector_def swap_step_flags)
qed

lemma swap_step_did_can:
  assumes step: "swap_step fp r w Z m k s = Inr s'" and len: "cols_len s n"
    and imp: "\<forall>l < n. did_swap s ! l \<longrightarrow> can_swap s ! l"
  shows "\<forall>l < n. did_swap s' ! l \<longrightarrow> can_swap s' ! l"
proof -
  obtain i g1 where d1: "randint r 0 (int m - 1) (gen s) = (i, g1)" by (cases "randint r 0 (int m - 1) (gen s)")
  obtain j g2 where d2: "randint r 0 (int m - 1) g1 = (j, g2)" by (cases "randint r 0 (int m - 1) g1")
  obtain u g3 where d3: "randu r g2 = (u, g3)" by (cases "randu r g2")
  from assms show ?thesis
    unfolding swap_step_unfold [OF d1 d2 d3]
    by (auto simp: cols_len_def nth_update_any split: if_splits)
qed

lemma swap_run_rows:
  assumes "swap_run fp r Re_from Re_to n w Rz_from Rz_to seed rd = Inr t"
  shows "cols_len t n \<and> (\<forall>l < n. did_swap t ! l \<longrightarrow> can_swap t ! l)"
proof -
  from assms obtain es Z where
    loop: "swap_loop fp r w Z (length Re_from) n 0 (swap_init r Re_from Re_to n es seed rd) = Inr t"
    unfolding swap_run_def by (rule swap_run_loop)
  show ?thesis
  proof (rule swap_loop_inv [OF loop])
    show "cols_len (swap_init r Re_from Re_to n es seed rd) n
        \<and> (\<forall>l<n. did_swap (swap_init r Re_from Re_to n es seed rd) ! l
              \<longrightarrow> can_swap (swap_init r Re_from Re_to n es seed rd) ! l)"
      by (simp add: swap_init_cols) (simp add: swap_init_def LogicalVector_def)
  next
    fix k' u u'
    assume "cols_len u n \<and> (\<forall>l<n. did_swap u ! l \<longrightarrow> can_swap u ! l)"
      and "swap_step fp r w Z (length Re_from) k' u = Inr u'"
    then show "cols_len u' n \<and> (\<forall>l<n. did_swap u' ! l \<longrightarrow> can_swap u' ! l)"
      using swap_step_other_rows [of fp r w Z "length Re_from" k' u u' n k']
        swap_step_did_can [of fp r w Z "length Re_from" k' u u' n] by blast
  qed
qed

lemma simple_swap_loop_split:
  assumes "k \<le> k'" "k' \<le> n"
  shows "simple_swap_loop r m p n k s =
           (case simple_swap_loop r m p k' k s of Inl e \<Rightarrow> Inl e
            | Inr s' \<Rightarrow> simple_swap_loop r m p n k' s')"
  using assms
proof (induction r m p k' k s rule: simple_swap_loop.induct)
  case (1 r m p k' k s)
  show ?case
  proof (cases "k < k'")
    case False
    with "1.prems" have "k = k'" by simp
    then show ?thesis by (simp add: simple_swap_loop.simps [of r m p k' k' s])
  next
    case True
    with "1.prems" have kn: "k < n" by simp
    show ?thesis
    proof (cases "simple_swap_step r m p s")
      case (Inl e)
      with True kn show ?thesis
        by (simp add: simple_swap_loop.simps [of r m p k' k s]
            simple_swap_loop.simps [of r m p n k s])
    next
      case (Inr s1)
      from "1.IH" [OF True Inr] True "1.prems"
      have "simple_swap_loop r m p n (Suc k) s1 =
           (case simple_swap_loop r m p k' (Suc k) s1 of Inl e \<Rightarrow> Inl e
            | Inr s' \<Rightarrow> simple_swap_loop r m p n k' s')" by simp
      with True kn Inr show ?thesis
        by (simp add: simple_swap_loop.simps [of r m p k' k s]
            simple_swap_loop.simps [of r m p n k s])
    qed
  qed
qed

lemma simple_swap_run_boundary:
  assumes "k \<le> n" and "simple_swap_run r Re_from Re_to n swap_p seed rd = Inr t"
  obtains s where "simple_swap_run r Re_from Re_to k swap_p seed rd = Inr s"
    and "simple_swap_loop r (length Re_from) swap_p n k s = Inr t"
proof -
  let ?m = "length Re_from"
  from assms(2) obtain es where es: "insert_pairs Re_from Re_to ?m 0 {} = Inr es"
    and loop: "simple_swap_loop r ?m swap_p n 0
        \<lparr> e_from = Re_from, e_to = Re_to, edgeSet = es, gen = make_gen r seed rd \<rparr> = Inr t"
    by (auto simp: simple_swap_run_def Let_def split: sum.splits)
  from simple_swap_loop_split [of 0 k n r ?m swap_p
      "\<lparr> e_from = Re_from, e_to = Re_to, edgeSet = es, gen = make_gen r seed rd \<rparr>"]
    assms(1) loop
  obtain s where pre: "simple_swap_loop r ?m swap_p k 0
        \<lparr> e_from = Re_from, e_to = Re_to, edgeSet = es, gen = make_gen r seed rd \<rparr> = Inr s"
    and post: "simple_swap_loop r ?m swap_p n k s = Inr t"
    by (auto split: sum.splits)
  from es pre have rt: "simple_swap_run r Re_from Re_to k swap_p seed rd = Inr s"
    by (simp add: simple_swap_run_def)
  show thesis by (rule that [OF rt post])
qed

text \<open>
  An arithmetic in which the products overflow: with \<open>fmul\<close> giving \<open>+\<infinity>\<close> and \<open>fdiv\<close> giving
  NaN for \<open>\<infinity>/\<infinity>\<close>, as IEEE 754 does for weights \<open>2^600\<close>, the row records NaN and the
  swap is not made.
\<close>

lemma swap_n_overflow:
  "swap_n \<lparr> fmul = (\<lambda>x y. PInf), fdiv = (\<lambda>x y. if x = PInf \<and> y = PInf then NaN else Fin 1) \<rparr>
      (scripted_rng [0, 1] [1/2]) [1, 3] [2, 4] 1 (\<lambda>u v. Fin (2 ^ 600)) [7, 7] [8, 8] 0 0
     = Inr \<lparr> r_from = [1, 3], r_to = [2, 4], r_same_edge = [False],
             r_is_checkerboard = [False], r_is_not_struct_zeros = [False],
             r_can_swap = [True], r_did_swap = [False], r_swap_p = [NaN] \<rparr>"
  by (simp add: run_simps)

section \<open>The claims\<close>

text \<open>
  C1. Forbidden respect fails. Edge list \<open>[(1,2), (3,4)]\<close>, structural zeros
  \<open>[(3,2), (9,9)]\<close> (disjoint from the edges), all weights 1, one iteration drawing
  \<open>i = 0\<close>, \<open>j = 1\<close>, \<open>u = 1/2\<close>. The completion edge \<open>(c,b) = (3,2)\<close> is a structural zero,
  yet the proposal is marked \<open>can_swap\<close>, the swap is committed, and slot 0 of the returned
  edge list holds \<open>(3,2)\<close>.
\<close>

theorem forbidden_edge_committed:
  "insert_pairs [3, 9] [2, 9] 2 0 {} = Inr {(9, 9), (3, 2)}
   \<and> set (zip [1, 3 :: int] [2, 4 :: int]) \<inter> {(9, 9), (3, 2)} = {}
   \<and> swap_n exact_fpu (scripted_rng [0, 1] [1/2]) [1, 3] [2, 4] 1 (\<lambda>u v. Fin 1)
        [3, 9] [2, 9] 0 0
       = Inr \<lparr> r_from = [3, 1], r_to = [2, 4], r_same_edge = [False],
               r_is_checkerboard = [False], r_is_not_struct_zeros = [False],
               r_can_swap = [True], r_did_swap = [True], r_swap_p = [Fin 1] \<rparr>
   \<and> zip [3, 1 :: int] [2, 4 :: int] ! 0 = (3, 2)"
  by (simp add: run_simps)

text \<open>
  C2. The zero set is built from the first \<open>m\<close> entries of the zero vectors only. With one
  edge and the two structural zeros \<open>[(1,4), (5,6)]\<close> the set is \<open>{(1,4)}\<close>: the pair
  \<open>(5,6)\<close> is left out. With the two edges \<open>[(5,2), (3,6)]\<close> and the three zeros
  \<open>[(9,9), (8,8), (5,6)]\<close> the proposal \<open>i = 0\<close>, \<open>j = 1\<close> creates the edge
  \<open>(a,d) = (5,6)\<close>, a structural zero of the caller's that the set does not hold.
\<close>

theorem zero_set_first_m_only:
  "insert_pairs [1, 5] [4, 6] (length [1 :: int]) 0 {} = Inr {(1, 4)}
   \<and> (5, 6) \<in> set (zip [1, 5 :: int] [4, 6 :: int])
   \<and> (5 :: int, 6 :: int) \<notin> {(1, 4)}
   \<and> swap_n exact_fpu (scripted_rng [0, 1] [1/2]) [5, 3] [2, 6] 1 (\<lambda>u v. Fin 1)
        [9, 8, 5] [9, 8, 6] 0 0
       = Inr \<lparr> r_from = [3, 5], r_to = [2, 6], r_same_edge = [False],
               r_is_checkerboard = [False], r_is_not_struct_zeros = [False],
               r_can_swap = [True], r_did_swap = [True], r_swap_p = [Fin 1] \<rparr>"
  by (simp add: run_simps)

text \<open>
  C3. The column \<open>is_checkerboard\<close> is false on a step whose proposal passes the
  checkerboard test. Edge list \<open>[(1,2), (3,4)]\<close>, one iteration drawing \<open>i = 0\<close>,
  \<open>j = 1\<close>: neither \<open>(1,4)\<close> nor \<open>(3,2)\<close> is an edge, the step goes on to \<open>can_swap\<close>,
  and \<open>is_checkerboard[0]\<close> is false.
\<close>

theorem is_checkerboard_false_on_pass:
  "(1, 4) \<notin> set (zip [1, 3 :: int] [2, 4 :: int])
   \<and> (3, 2) \<notin> set (zip [1, 3 :: int] [2, 4 :: int])
   \<and> (case swap_n exact_fpu (scripted_rng [0, 1] [3/4]) [1, 3] [2, 4] 1 (\<lambda>u v. Fin (1/2))
              [7, 7] [8, 8] 0 0 of
        Inl e \<Rightarrow> False
      | Inr res \<Rightarrow> r_can_swap res = [True] \<and> r_is_checkerboard res = [False])"
  by (simp add: run_simps)

text \<open>
  C4. Two iterations on the edge list \<open>[(1,2), (3,4)]\<close>, the first drawing \<open>i = j = 0\<close>,
  the second \<open>i = 0\<close>, \<open>j = 1\<close>. In row 0 \<open>same_edge\<close>, \<open>not is_checkerboard\<close> and
  \<open>not is_not_struct_zeros\<close> hold together; in row 1 \<open>can_swap\<close>, \<open>not is_checkerboard\<close>
  and \<open>not is_not_struct_zeros\<close> do.
\<close>

theorem diagnostic_row_three_conditions:
  "swap_n exact_fpu (scripted_rng [0, 0, 0, 1] [1/2]) [1, 3] [2, 4] 2 (\<lambda>u v. Fin 1)
      [7, 7] [8, 8] 0 0
     = Inr \<lparr> r_from = [3, 1], r_to = [2, 4], r_same_edge = [True, False],
             r_is_checkerboard = [False, False], r_is_not_struct_zeros = [False, False],
             r_can_swap = [False, True], r_did_swap = [False, True],
             r_swap_p = [Fin 0, Fin 1] \<rparr>"
  by (simp add: run_simps numeral_2_eq_2)

text \<open>
  C5, as stated, fails. The input \<open>[(1,2), (2,1)]\<close> has no self-loop. The proposal
  \<open>i = 0\<close>, \<open>j = 1\<close> passes the checkerboard test (neither \<open>(1,1)\<close> nor \<open>(2,2)\<close> is an
  edge) and, once accepted, leaves the edge list \<open>[(2,2), (1,1)]\<close>, in both functions.
\<close>

theorem self_loop_created:
  "no_self_loop (zip [1, 2] [2, 1])
   \<and> simple_swap_n (scripted_rng [0, 1] [1/4]) [1, 2] [2, 1] 1 (Fin (1/2)) 0 0
       = Inr ([2, 1], [2, 1])
   \<and> swap_n exact_fpu (scripted_rng [0, 1] [1/4]) [1, 2] [2, 1] 1 (\<lambda>u v. Fin 1)
        [7, 7] [8, 8] 0 0
       = Inr \<lparr> r_from = [2, 1], r_to = [2, 1], r_same_edge = [False],
               r_is_checkerboard = [False], r_is_not_struct_zeros = [False],
               r_can_swap = [True], r_did_swap = [True], r_swap_p = [Fin 1] \<rparr>
   \<and> \<not> no_self_loop (zip [2, 1] [2, 1])"
  by (simp add: run_simps no_self_loop_def)

text \<open>
  C5, amended. If no vertex is both a \<open>from\<close> value and a \<open>to\<close> value of the input edge
  list, and every \<open>from\<close> value is in the range of a 32-bit \<open>int\<close>, then the edge list has
  no self-loop after any number of iterations of \<open>simple_swap_n\<close> and at every step
  boundary \<open>k \<le> n\<close> of \<open>swap_n\<close>.
\<close>

theorem self_loop_immunity_disjoint:
  assumes "set Re_from \<inter> set Re_to = {}" and "ids_ok Re_from"
  shows "(simple_swap_run r Re_from Re_to n swap_p seed rd = Inr s \<longrightarrow> no_self_loop (edges s))
       \<and> (k \<le> n \<longrightarrow> swap_run_to k fp r Re_from Re_to n w Rz_from Rz_to seed rd = Inr t \<longrightarrow>
            no_self_loop (edges t))"
proof (intro conjI impI)
  assume run: "simple_swap_run r Re_from Re_to n swap_p seed rd = Inr s"
  from simple_swap_run_mset [OF run assms(2)]
  have "set (e_from s) = set Re_from" "e_to s = Re_to" by (auto dest: mset_eq_setD)
  with assms(1) show "no_self_loop (edges s)"
    unfolding edges_def by (intro no_self_loop_disjoint) simp
next
  assume run: "swap_run_to k fp r Re_from Re_to n w Rz_from Rz_to seed rd = Inr t"
  from swap_run_to_mset [OF run assms(2)]
  have "set (e_from t) = set Re_from" "e_to t = Re_to" by (auto dest: mset_eq_setD)
  with assms(1) show "no_self_loop (edges t)"
    unfolding edges_def by (intro no_self_loop_disjoint) simp
qed

theorem self_loop_immunity_disjoint_witness:
  "set [1, 3 :: int] \<inter> set [2, 4 :: int] = {} \<and> ids_ok [1, 3] \<and> (1 :: nat) \<le> 1
   \<and> (case simple_swap_run (scripted_rng [0, 1] [1/4]) [1, 3] [2, 4] 1 (Fin (1/2)) 0 0 of
        Inl e \<Rightarrow> False
      | Inr s \<Rightarrow> edges s = [(3, 2), (1, 4)] \<and> no_self_loop (edges s))
   \<and> (case swap_run_to 1 exact_fpu (scripted_rng [0, 1] [1/4]) [1, 3] [2, 4] 1 (\<lambda>u v. Fin 1)
               [7, 7] [8, 8] 0 0 of
        Inl e \<Rightarrow> False
      | Inr t \<Rightarrow> edges t = [(3, 2), (1, 4)] \<and> no_self_loop (edges t))"
proof -
  have d: "set [1, 3 :: int] \<inter> set [2, 4 :: int] = {}" by simp
  have ok: "ids_ok [1, 3]" by (simp add: ids_ok_def in_int_def)
  obtain s where s: "simple_swap_run (scripted_rng [0, 1] [1/4]) [1, 3] [2, 4] 1 (Fin (1/2)) 0 0
       = Inr s" and es: "edges s = [(3, 2), (1, 4)]"
    by (simp add: run_simps edges_def)
  obtain t where t: "swap_run_to 1 exact_fpu (scripted_rng [0, 1] [1/4]) [1, 3] [2, 4] 1
               (\<lambda>u v. Fin 1) [7, 7] [8, 8] 0 0 = Inr t" and et: "edges t = [(3, 2), (1, 4)]"
    by (simp add: run_simps edges_def)
  from self_loop_immunity_disjoint [OF d ok, where r = "scripted_rng [0, 1] [1/4]" and n = 1
      and k = 1 and swap_p = "Fin (1/2)" and seed = 0 and rd = 0 and s = s and t = t
      and fp = exact_fpu and w = "\<lambda>u v. Fin 1" and Rz_from = "[7, 7]" and Rz_to = "[8, 8]"] s t
  have "no_self_loop (edges s)" "no_self_loop (edges t)" by simp_all
  with s t es et d ok show ?thesis by simp
qed

text \<open>
  C6, as stated, fails for ids outside the range of \<open>int\<close>. The input
  \<open>[(3000000000,2), (1,4)]\<close> is a simple graph; the hash set is built from the \<open>int\<close>
  conversions of the ids and holds \<open>(-2147483648,2)\<close>, not the stored pair
  \<open>(3000000000,2)\<close>, and that is still so after an iteration that draws \<open>i = j\<close>. The input
  \<open>[(3000000000,2), (4000000000,2)]\<close> is a simple graph with \<open>m = 2\<close>; both pairs convert to
  \<open>(-2147483648,2)\<close> and the hash set has one element.
\<close>

theorem index_broken_out_of_range:
  "distinct (zip [3000000000, 1 :: int] [2, 4 :: int])
   \<and> simple_swap_run (scripted_rng [0, 0] []) [3000000000, 1] [2, 4] 1 (Fin (1/2)) 0 0
       = Inr \<lparr> e_from = [3000000000, 1], e_to = [2, 4],
               edgeSet = {(1, 4), (- 2147483648, 2)}, gen = ([], []) \<rparr>
   \<and> (3000000000, 2) \<in> set (zip [3000000000, 1 :: int] [2, 4 :: int])
   \<and> (3000000000 :: int, 2 :: int) \<notin> {(1, 4), (- 2147483648, 2)}
   \<and> distinct (zip [3000000000, 4000000000 :: int] [2, 2 :: int])
   \<and> simple_swap_run (scripted_rng [0, 0] []) [3000000000, 4000000000] [2, 2] 1
        (Fin (1/2)) 0 0
       = Inr \<lparr> e_from = [3000000000, 4000000000], e_to = [2, 2],
               edgeSet = {(- 2147483648, 2)}, gen = ([], []) \<rparr>
   \<and> card {(- 2147483648 :: int, 2 :: int)} = 1 \<and> length [3000000000, 4000000000 :: int] = 2"
  by (simp add: run_simps)

text \<open>
  C6, amended. When the input is a simple graph (no ordered pair twice in the edge list)
  and every id is in the range of a 32-bit \<open>int\<close>, then in \<open>simple_swap_n\<close> after any number
  \<open>n\<close> of iterations, and in \<open>swap_n\<close> at every step boundary \<open>k \<le> n\<close>, the hash set is the
  set of the pairs stored in the edge list, it has \<open>m\<close> elements, and no pair is stored
  twice.
\<close>

theorem index_consistency:
  assumes "distinct (zip Re_from Re_to)" and "ids_ok Re_from" and "ids_ok Re_to"
  shows "(simple_swap_run r Re_from Re_to n swap_p seed rd = Inr s \<longrightarrow>
            edgeSet s = set (edges s) \<and> card (edgeSet s) = length Re_from \<and> distinct (edges s))
       \<and> (k \<le> n \<longrightarrow> swap_run_to k fp r Re_from Re_to n w Rz_from Rz_to seed rd = Inr t \<longrightarrow>
            edgeSet t = set (edges t) \<and> card (edgeSet t) = length Re_from \<and> distinct (edges t))"
proof (intro conjI impI)
  have d: "distinct (zip (map to_int Re_from) (map to_int Re_to))"
    using assms by (simp add: ids_ok_map)
  {
    assume run: "simple_swap_run r Re_from Re_to n swap_p seed rd = Inr s"
    have c: "consistent s" by (rule simple_swap_run_consistent [OF d run])
    have ke: "keys s = edges s" by (rule simple_swap_run_ids [OF run assms(2,3)])
    have "length (e_from s) = length Re_from"
      using simple_swap_run_mset [OF run assms(2)] by (metis size_mset)
    with c edges_card [OF c] ke
    show "edgeSet s = set (edges s)" "card (edgeSet s) = length Re_from" "distinct (edges s)"
      by (simp_all add: consistent_def)
  }
  {
    assume run: "swap_run_to k fp r Re_from Re_to n w Rz_from Rz_to seed rd = Inr t"
    have c: "consistent t" by (rule swap_run_to_consistent [OF d run])
    have ke: "keys t = edges t" by (rule swap_run_to_ids [OF run assms(2,3)])
    have "length (e_from t) = length Re_from"
      using swap_run_to_mset [OF run assms(2)] by (metis size_mset)
    with c edges_card [OF c] ke
    show "edgeSet t = set (edges t)" "card (edgeSet t) = length Re_from" "distinct (edges t)"
      by (simp_all add: consistent_def)
  }
qed

theorem index_consistency_witness:
  "distinct (zip [1, 3 :: int] [2, 4 :: int]) \<and> ids_ok [1, 3] \<and> ids_ok [2, 4]
   \<and> (1 :: nat) \<le> 1
   \<and> (case simple_swap_run (scripted_rng [0, 1] [1/4]) [1, 3] [2, 4] 1 (Fin (1/2)) 0 0 of
        Inl e \<Rightarrow> False
      | Inr s \<Rightarrow> edgeSet s = set (edges s) \<and> card (edgeSet s) = 2 \<and> distinct (edges s))
   \<and> (case swap_run_to 1 exact_fpu (scripted_rng [0, 1] [1/4]) [1, 3] [2, 4] 1 (\<lambda>u v. Fin 1)
               [7, 7] [8, 8] 0 0 of
        Inl e \<Rightarrow> False
      | Inr t \<Rightarrow> edgeSet t = set (edges t) \<and> card (edgeSet t) = 2 \<and> distinct (edges t))"
proof -
  have d: "distinct (zip [1, 3 :: int] [2, 4 :: int])" by simp
  have ok: "ids_ok [1, 3]" "ids_ok [2, 4]" by (simp_all add: ids_ok_def in_int_def)
  obtain s where s: "simple_swap_run (scripted_rng [0, 1] [1/4]) [1, 3] [2, 4] 1 (Fin (1/2)) 0 0
       = Inr s"
    by (simp add: run_simps)
  obtain t where t: "swap_run_to 1 exact_fpu (scripted_rng [0, 1] [1/4]) [1, 3] [2, 4] 1
               (\<lambda>u v. Fin 1) [7, 7] [8, 8] 0 0 = Inr t"
    by (simp add: run_simps)
  from index_consistency [OF d ok, where r = "scripted_rng [0, 1] [1/4]" and n = 1 and k = 1
      and swap_p = "Fin (1/2)" and seed = 0 and rd = 0 and s = s and t = t
      and fp = exact_fpu and w = "\<lambda>u v. Fin 1" and Rz_from = "[7, 7]" and Rz_to = "[8, 8]"]
    s t d ok
  show ?thesis by (auto simp: numeral_2_eq_2)
qed

text \<open>
  C7, as stated, fails for ids outside the range of \<open>int\<close>. With the edge list
  \<open>[(3000000000,2), (1,4)]\<close> and one iteration drawing \<open>i = 0\<close>, \<open>j = 1\<close>, the id of slot 0
  is read into an \<open>int\<close> local as \<open>-2147483648\<close> and written back into slot 1: the \<open>from\<close>
  values returned are \<open>[1, -2147483648]\<close>, not a permutation of \<open>[3000000000, 1]\<close>.
\<close>

theorem from_values_changed_out_of_range:
  "simple_swap_n (scripted_rng [0, 1] [1/4]) [3000000000, 1] [2, 4] 1 (Fin (1/2)) 0 0
     = Inr ([1, - 2147483648], [2, 4])
   \<and> mset [1, - 2147483648 :: int] \<noteq> mset [3000000000, 1 :: int]"
  by (simp add: run_simps)

text \<open>
  C7, amended. If every \<open>from\<close> value of the input is in the range of a 32-bit \<open>int\<close>,
  then in \<open>simple_swap_n\<close> after any number \<open>n\<close> of iterations, and in \<open>swap_n\<close> at every
  step boundary \<open>k \<le> n\<close>, the \<open>from\<close> values of the edge list are a permutation of those of
  the input (the same multiset), and the \<open>to\<close> vector is the input's, slot by slot.
\<close>

theorem degree_preservation:
  assumes "ids_ok Re_from"
  shows "(simple_swap_run r Re_from Re_to n swap_p seed rd = Inr s \<longrightarrow>
      mset (e_from s) = mset Re_from \<and> e_to s = Re_to \<and> mset (e_to s) = mset Re_to)
   \<and> (k \<le> n \<longrightarrow> swap_run_to k fp r Re_from Re_to n w Rz_from Rz_to seed rd = Inr t \<longrightarrow>
      mset (e_from t) = mset Re_from \<and> e_to t = Re_to \<and> mset (e_to t) = mset Re_to)"
proof (intro conjI impI)
  assume run: "simple_swap_run r Re_from Re_to n swap_p seed rd = Inr s"
  from simple_swap_run_mset [OF run assms]
  show "mset (e_from s) = mset Re_from" "e_to s = Re_to" "mset (e_to s) = mset Re_to"
    by simp_all
next
  assume run: "swap_run_to k fp r Re_from Re_to n w Rz_from Rz_to seed rd = Inr t"
  from swap_run_to_mset [OF run assms]
  show "mset (e_from t) = mset Re_from" "e_to t = Re_to" "mset (e_to t) = mset Re_to"
    by simp_all
qed

theorem degree_preservation_witness:
  "ids_ok [1, 3, 5] \<and> (2 :: nat) \<le> 2
   \<and> (case simple_swap_run (scripted_rng [0, 1, 2, 0] [1/4, 1/8]) [1, 3, 5] [2, 4, 6] 2
             (Fin (1/2)) 0 0 of
        Inl e \<Rightarrow> False
      | Inr s \<Rightarrow> e_from s = [5, 1, 3] \<and> mset (e_from s) = mset [1, 3, 5] \<and> e_to s = [2, 4, 6])
   \<and> (case swap_run_to 2 exact_fpu (scripted_rng [0, 1, 2, 0] [1/4, 1/8]) [1, 3, 5] [2, 4, 6] 2
             (\<lambda>u v. Fin 1) [7, 7, 7] [8, 8, 8] 0 0 of
        Inl e \<Rightarrow> False
      | Inr t \<Rightarrow> e_from t = [5, 1, 3] \<and> mset (e_from t) = mset [1, 3, 5] \<and> e_to t = [2, 4, 6])"
proof -
  have ok: "ids_ok [1, 3, 5]" by (simp add: ids_ok_def in_int_def)
  obtain s where s: "simple_swap_run (scripted_rng [0, 1, 2, 0] [1/4, 1/8]) [1, 3, 5] [2, 4, 6] 2
             (Fin (1/2)) 0 0 = Inr s" and fs: "e_from s = [5, 1, 3]"
    by (simp add: run_simps)
  obtain t where t: "swap_run_to 2 exact_fpu (scripted_rng [0, 1, 2, 0] [1/4, 1/8]) [1, 3, 5]
             [2, 4, 6] 2 (\<lambda>u v. Fin 1) [7, 7, 7] [8, 8, 8] 0 0 = Inr t"
    and ft: "e_from t = [5, 1, 3]"
    by (simp add: run_simps)
  from degree_preservation [OF ok, where r = "scripted_rng [0, 1, 2, 0] [1/4, 1/8]" and n = 2
      and k = 2 and Re_to = "[2, 4, 6]"
      and swap_p = "Fin (1/2)" and seed = 0 and rd = 0 and s = s and t = t
      and fp = exact_fpu and w = "\<lambda>u v. Fin 1" and Rz_from = "[7, 7, 7]" and Rz_to = "[8, 8, 8]"]
    s t
  have "mset (e_from s) = mset [1, 3, 5] \<and> e_to s = [2, 4, 6]"
    and "mset (e_from t) = mset [1, 3, 5] \<and> e_to t = [2, 4, 6]" by simp_all
  with s t fs ft ok show ?thesis by simp
qed

text \<open>
  C8. Seed determinism. With a seed other than the sentinel \<open>-1\<close>, the value read from
  \<open>std::random_device\<close> is not used: whatever it is, \<open>simple_swap_n\<close> returns the same edge
  lists and \<open>swap_n\<close> the same edge lists and the same six columns.
\<close>

theorem seed_determinism:
  assumes "seed \<noteq> -1"
  shows "simple_swap_n r Re_from Re_to n swap_p seed rd
           = simple_swap_n r Re_from Re_to n swap_p seed rd'
       \<and> swap_n fp r Re_from Re_to n w Rz_from Rz_to seed rd
           = swap_n fp r Re_from Re_to n w Rz_from Rz_to seed rd'"
proof -
  have g: "make_gen r seed rd = make_gen r seed rd'"
    using assms by (simp add: make_gen_def)
  show ?thesis
    unfolding simple_swap_n_def simple_swap_run_def swap_n_def swap_run_def
      swap_run_to_def swap_init_def g
    by (intro conjI refl)
qed

theorem seed_determinism_witness:
  "(1 :: int) \<noteq> -1
   \<and> simple_swap_n (scripted_rng [-1, 0] [1/4]) [1, 3] [2, 4] 1 (Fin (1/2)) 1 0
       = simple_swap_n (scripted_rng [-1, 0] [1/4]) [1, 3] [2, 4] 1 (Fin (1/2)) 1 1
   \<and> swap_n exact_fpu (scripted_rng [-1, 0] [1/4]) [1, 3] [2, 4] 1 (\<lambda>u v. Fin 1)
        [7, 7] [8, 8] 1 0
       = swap_n exact_fpu (scripted_rng [-1, 0] [1/4]) [1, 3] [2, 4] 1 (\<lambda>u v. Fin 1)
        [7, 7] [8, 8] 1 1
   \<and> simple_swap_n (scripted_rng [-1, 0] [1/4]) [1, 3] [2, 4] 1 (Fin (1/2)) 1 0
       = Inr ([3, 1], [2, 4])"
proof -
  have ne: "(1 :: int) \<noteq> -1" by simp
  have run: "simple_swap_n (scripted_rng [-1, 0] [1/4]) [1, 3] [2, 4] 1 (Fin (1/2)) 1 0
       = Inr ([3, 1], [2, 4])"
    by (simp add: run_simps)
  from seed_determinism [OF ne, where r = "scripted_rng [-1, 0] [1/4]" and rd = 0 and rd' = 1]
    ne run
  show ?thesis by simp
qed

text \<open>
  C9. Let row \<open>k\<close> of a run of \<open>swap_n\<close> have \<open>can_swap\<close> set, and let \<open>s\<close> be the state
  at step boundary \<open>k\<close>, with \<open>(a,b)\<close> and \<open>(c,d)\<close> in the two slots drawn there. Then
  \<open>swap_p[k]\<close> is the double the source computes as \<open>W(a,d) * W(c,b) / (W(a,b) * W(c,d))\<close>,
  whatever it is (rounded, infinite or NaN), with no clamping; and if it is at least 1
  then \<open>did_swap[k]\<close> is set: the draw \<open>u\<close> is below 1. This holds for every arithmetic
  \<open>fp\<close> of doubles.
\<close>

theorem acceptance_ratio_unclamped:
  assumes "rng_ok r" and "k < n"
    and "swap_run fp r Re_from Re_to n w Rz_from Rz_to seed rd = Inr t"
    and "can_swap t ! k"
  shows "\<exists>s i j. swap_run_to k fp r Re_from Re_to n w Rz_from Rz_to seed rd = Inr s
           \<and> proposal r (length Re_from) s = (i, j)
           \<and> swap_ps t ! k = swap_ratio fp w s i j
           \<and> (dle (Fin 1) (swap_ps t ! k) \<longrightarrow> did_swap t ! k)"
proof -
  let ?m = "length Re_from"
  from assms(3) obtain es Z where es: "insert_pairs Re_from Re_to ?m 0 {} = Inr es"
    and Z: "insert_pairs Rz_from Rz_to ?m 0 {} = Inr Z"
    and loop: "swap_loop fp r w Z ?m n 0 (swap_init r Re_from Re_to n es seed rd) = Inr t"
    unfolding swap_run_def by (rule swap_run_loop)
  let ?s0 = "swap_init r Re_from Re_to n es seed rd"
  from swap_loop_split [of 0 k n fp r w Z ?m ?s0] assms(2) loop
  obtain s where pre: "swap_loop fp r w Z ?m k 0 ?s0 = Inr s"
    and post: "swap_loop fp r w Z ?m n k s = Inr t"
    by (auto split: sum.splits)
  from post assms(2) obtain s' where step: "swap_step fp r w Z ?m k s = Inr s'"
    and rest: "swap_loop fp r w Z ?m n (Suc k) s' = Inr t"
    by (auto simp: swap_loop.simps [of fp r w Z ?m n k s] split: sum.splits)
  from swap_loop_rows [OF pre swap_init_cols, of k]
  have len: "cols_len s n" and row: "diag_row s k = diag_row ?s0 k" by simp_all
  with swap_init_row [OF assms(2), of r Re_from Re_to es seed rd]
  have fresh: "\<not> can_swap s ! k" by (simp add: diag_row_def)
  from swap_step_other_rows [OF step len, of k] have len': "cols_len s' n" by simp
  from swap_loop_rows [OF rest len', of k] have "diag_row t k = diag_row s' k" by simp
  then have same: "can_swap t ! k = can_swap s' ! k" "swap_ps t ! k = swap_ps s' ! k"
    "did_swap t ! k = did_swap s' ! k" by (simp_all add: diag_row_def)
  obtain i j where pij: "proposal r ?m s = (i, j)" by (cases "proposal r ?m s")
  from swap_step_own_row [OF step len assms(2) fresh _ assms(1) pij] assms(4) same
  have "swap_ps t ! k = swap_ratio fp w s i j \<and> (dle (Fin 1) (swap_ps t ! k) \<longrightarrow> did_swap t ! k)"
    by simp
  moreover have "swap_run_to k fp r Re_from Re_to n w Rz_from Rz_to seed rd = Inr s"
    using es Z pre by (simp add: swap_run_to_def)
  ultimately show ?thesis using pij by blast
qed

theorem acceptance_ratio_unclamped_witness:
  "rng_ok (scripted_rng [0, 1] [99/100]) \<and> (0 :: nat) < 1
   \<and> (case swap_run exact_fpu (scripted_rng [0, 1] [99/100]) [1, 3] [2, 4] 1
             (\<lambda>u v. if u + v = 5 then Fin 4 else Fin 1) [7, 7] [8, 8] 0 0 of
        Inl e \<Rightarrow> False
      | Inr t \<Rightarrow> can_swap t ! 0 \<and> swap_ps t ! 0 = Fin 16 \<and> dle (Fin 1) (swap_ps t ! 0)
                 \<and> did_swap t ! 0 \<and> e_from t = [3, 1])"
proof -
  let ?r = "scripted_rng [0, 1] [99/100]"
  let ?w = "\<lambda>u v :: int. if u + v = 5 then Fin 4 else Fin 1"
  have ok: "rng_ok ?r" by (rule scripted_rng_ok)
  obtain t where t: "swap_run exact_fpu ?r [1, 3] [2, 4] 1 ?w [7, 7] [8, 8] 0 0 = Inr t"
    and can: "can_swap t ! 0" and p: "swap_ps t ! 0 = Fin 16" and f: "e_from t = [3, 1]"
    by (simp add: run_simps)
  have ge: "dle (Fin 1) (swap_ps t ! 0)" by (simp add: p dle_def fval_def)
  have lt: "(0 :: nat) < 1" by simp
  from acceptance_ratio_unclamped [OF ok lt t can] ge have "did_swap t ! 0" by blast
  with ok t can p ge f show ?thesis by simp
qed

text \<open>
  C10. The second lookup of the structural-zero test is in \<open>edgeSet\<close>, so the test
  reads \<open>zeroSet\<close> only at \<open>(a,d)\<close>. For the slots \<open>i\<close>, \<open>j\<close> drawn in state \<open>s\<close>, with
  \<open>(a,b)\<close> read from slot \<open>i\<close> and \<open>(c,d)\<close> from slot \<open>j\<close>: two zero sets that agree on
  \<open>(a,d)\<close> give the same step; and when the hash set holds the pairs read from the edge
  list, the step is the same whether or not \<open>(c,b)\<close> is a structural zero.
\<close>

theorem zero_test_reads_ad_only:
  assumes "proposal r m s = (i, j)"
  shows "(((from_at s i, to_at s j) \<in> Z \<longleftrightarrow> (from_at s i, to_at s j) \<in> Z')
            \<longrightarrow> swap_step fp r w Z m k s = swap_step fp r w Z' m k s)
       \<and> (set (keys s) \<subseteq> edgeSet s
            \<longrightarrow> swap_step fp r w (insert (from_at s j, to_at s i) Z) m k s
                = swap_step fp r w (Z - {(from_at s j, to_at s i)}) m k s)"
proof -
  obtain i' g1 where d1: "randint r 0 (int m - 1) (gen s) = (i', g1)" by (cases "randint r 0 (int m - 1) (gen s)")
  obtain j' g2 where d2: "randint r 0 (int m - 1) g1 = (j', g2)" by (cases "randint r 0 (int m - 1) g1")
  obtain u g3 where d3: "randu r g2 = (u, g3)" by (cases "randu r g2")
  from proposal_draws [OF d1 d2] assms have ij: "i' = i" "j' = j" by simp_all
  note eq = swap_step_unfold [OF d1 d2 d3, where fp = fp and w = w and k = k, unfolded ij]
  let ?ad = "(from_at s i, to_at s j)" and ?cb = "(from_at s j, to_at s i)"
  have agree: "swap_step fp r w Z1 m k s = swap_step fp r w Z2 m k s"
    if "?ad \<in> Z1 \<longleftrightarrow> ?ad \<in> Z2" for Z1 Z2
    using that by (simp add: eq [where Z = Z1] eq [where Z = Z2])
  have "swap_step fp r w (insert ?cb Z) m k s = swap_step fp r w (Z - {?cb}) m k s"
    if sub: "set (keys s) \<subseteq> edgeSet s"
  proof (cases "?cb = ?ad")
    case False
    then show ?thesis by (intro agree) auto
  next
    case True
    have "?ad \<in> edgeSet s" if "in_range i s"
    proof -
      from keys_nth [OF that]
      have "(from_at s i, to_at s i) \<in> set (keys s)" by (metis nth_mem)
      with True sub show ?thesis by auto
    qed
    then show ?thesis
      by (simp add: eq [where Z = "insert ?cb Z"] eq [where Z = "Z - {?cb}"])
  qed
  with agree show ?thesis by blast
qed

theorem zero_test_reads_ad_only_witness:
  "proposal (scripted_rng [0, 1] [1/2]) 2
      (swap_init (scripted_rng [0, 1] [1/2]) [1, 3] [2, 4] 1 {(1, 2), (3, 4)} 0 0) = (0, 1)
   \<and> (((1, 4) \<in> {}) = ((1 :: int, 4 :: int) \<in> {(3, 2)}))
   \<and> set (keys (swap_init (scripted_rng [0, 1] [1/2]) [1, 3] [2, 4] 1 {(1, 2), (3, 4)} 0 0))
        \<subseteq> edgeSet (swap_init (scripted_rng [0, 1] [1/2]) [1, 3] [2, 4] 1 {(1, 2), (3, 4)} 0 0)
   \<and> swap_step exact_fpu (scripted_rng [0, 1] [1/2]) (\<lambda>u v. Fin 1) {} 2 0
        (swap_init (scripted_rng [0, 1] [1/2]) [1, 3] [2, 4] 1 {(1, 2), (3, 4)} 0 0)
     = swap_step exact_fpu (scripted_rng [0, 1] [1/2]) (\<lambda>u v. Fin 1) {(3, 2)} 2 0
        (swap_init (scripted_rng [0, 1] [1/2]) [1, 3] [2, 4] 1 {(1, 2), (3, 4)} 0 0)
   \<and> (case swap_step exact_fpu (scripted_rng [0, 1] [1/2]) (\<lambda>u v. Fin 1) {(3, 2)} 2 0
        (swap_init (scripted_rng [0, 1] [1/2]) [1, 3] [2, 4] 1 {(1, 2), (3, 4)} 0 0) of
        Inl e \<Rightarrow> False
      | Inr s' \<Rightarrow> did_swap s' = [True] \<and> e_from s' = [3, 1])"
proof -
  let ?r = "scripted_rng [0, 1] [1/2]"
  let ?s = "swap_init ?r [1, 3] [2, 4] 1 {(1, 2), (3, 4)} 0 0"
  have p: "proposal ?r 2 ?s = (0, 1)"
    by (simp add: proposal_def run_simps)
  have ad: "(from_at ?s 0, to_at ?s 1) = (1, 4)"
    by (simp add: swap_init_def from_at_def to_at_def to_int_def in_int_def)
  have sub: "set (keys ?s) \<subseteq> edgeSet ?s"
    by (simp add: keys_def swap_init_def to_int_def in_int_def)
  have ev: "case swap_step exact_fpu ?r (\<lambda>u v. Fin 1) {(3, 2)} 2 0 ?s of
        Inl e \<Rightarrow> False | Inr s' \<Rightarrow> did_swap s' = [True] \<and> e_from s' = [3, 1]"
    by (simp add: run_simps)
  from zero_test_reads_ad_only [OF p, where Z = "{}" and Z' = "{(3, 2)}" and fp = exact_fpu
      and w = "\<lambda>u v. Fin 1" and k = 0]
  have "swap_step exact_fpu ?r (\<lambda>u v. Fin 1) {} 2 0 ?s
          = swap_step exact_fpu ?r (\<lambda>u v. Fin 1) {(3, 2)} 2 0 ?s"
    unfolding ad by simp
  with p sub ev show ?thesis by simp
qed

end
